theory Spec2Isabelle
  imports Main "HOL-Library.Multiset"
begin

section \<open>Donachain: Campaign Ledger, Certificate Registry and Ballot Registry\<close>

text \<open>
  A shallow embedding of the three Solidity contracts of the repository:
  \<^verbatim>\<open>DonationManager\<close> (the Campaign Ledger), \<^verbatim>\<open>DonachainNFT\<close> (the Certificate
  Registry) and \<^verbatim>\<open>Voting\<close> (the Ballot Registry).

  \<^item> \<^verbatim>\<open>uint256\<close> is \<open>nat\<close>; Solidity 0.8 arithmetic is checked, so every \<^verbatim>\<open>+\<close> and
    \<^verbatim>\<open>++\<close> of the source that would leave the range is the failure \<open>Panic\<close>.
  \<^item> \<^verbatim>\<open>address\<close> is \<open>nat\<close>, with \<open>0\<close> for \<^verbatim>\<open>address(0)\<close>; \<^verbatim>\<open>bytes32\<close> is \<open>nat\<close>.
  \<^item> a Solidity \<^verbatim>\<open>mapping\<close> is a total function (absent keys read as the zero value).
  \<^item> a \<^verbatim>\<open>require\<close> that fails, a failed external call and an arithmetic panic are
    \<open>Inl\<close> of an error; the state of a failed call is discarded, as a revert does.
  \<^item> events are not part of the state and are left out.
\<close>

subsection \<open>Numbers, addresses, errors, the call environment\<close>

type_synonym address = nat
type_synonym uint256 = nat
type_synonym bytes32 = nat

definition MAX_UINT256 :: nat where
  "MAX_UINT256 = 2 ^ 256 - 1"

definition fits :: "nat \<Rightarrow> bool" where
  "fits n \<longleftrightarrow> n \<le> MAX_UINT256"

text \<open>The unit \<^verbatim>\<open>ether\<close>: amounts are in wei.\<close>

definition ether :: nat where
  "ether = 10 ^ 18"

text \<open>
  The failure kinds. The first ten are the spec's names for the revert reasons of the
  source:
  \<^item> \<open>Unauthorized\<close>: \<^verbatim>\<open>onlyOwner\<close>, \<^verbatim>\<open>onlyDonationManager\<close>;
  \<^item> \<open>NotFound\<close>: "Kampanye tidak ada", "Token tidak ada", and \<^verbatim>\<open>ownerOf\<close> of a token
    that was never minted;
  \<^item> \<open>InvalidInput\<close>: empty title or description, zero amount or target, null address,
    deadline not in the future;
  \<^item> \<open>CampaignInactive\<close>: "Kampanye tidak aktif";
  \<^item> \<open>DeadlinePassed\<close>: "Kampanye sudah melewati deadline";
  \<^item> \<open>InsufficientBalance\<close>: "Saldo tidak cukup";
  \<^item> \<open>NotOwner\<close>: "Anda bukan pemilik NFT ini";
  \<^item> \<open>AlreadyUsed\<close>: "NFT ini sudah digunakan untuk voting";
  \<^item> \<open>CampaignMismatch\<close>: "NFT ini bukan tiket untuk kampanye ini";
  \<^item> \<open>Reentrant\<close>: the \<^verbatim>\<open>nonReentrant\<close> guard.

  The others: \<open>Panic\<close> is checked-arithmetic overflow, \<open>TransferFailed\<close> a
  \<^verbatim>\<open>recipient.transfer\<close> that reverts, \<open>InvalidReceiver\<close> and \<open>InvalidSender\<close> the
  ERC-721 mint checks, \<open>NoContract\<close> an external call to an address without code.
\<close>

datatype error =
    Unauthorized | NotFound | InvalidInput | CampaignInactive | DeadlinePassed
  | InsufficientBalance | NotOwner | AlreadyUsed | CampaignMismatch | Reentrant
  | Panic | TransferFailed | InvalidReceiver | InvalidSender | NoContract

subsection \<open>The Certificate Registry (DonachainNFT)\<close>

datatype Tier = Bronze | Silver | Gold | Special

text \<open>\<^verbatim>\<open>0.05 ether\<close> and \<^verbatim>\<open>0.1 ether\<close>.\<close>

definition SILVER_THRESHOLD :: nat where
  "SILVER_THRESHOLD = 5 * ether div 100"

definition GOLD_THRESHOLD :: nat where
  "GOLD_THRESHOLD = ether div 10"

definition SPECIAL_CHANCE :: nat where
  "SPECIAL_CHANCE = 500"

record DonationDetail =
  dd_donor :: address
  dd_amount :: nat
  dd_campaignId :: nat
  dd_campaignTitle :: string
  dd_timestamp :: nat
  dd_txHash :: bytes32
  dd_tier :: Tier

text \<open>
  The registry's storage. \<open>owners\<close> and \<open>balances\<close> are the two mappings of the ERC-721
  base contract (\<open>owners n t = 0\<close>: token \<open>t\<close> does not exist); \<open>n_owner\<close> is the
  administrator of \<^verbatim>\<open>Ownable\<close>.
\<close>

record DonachainNFT =
  n_owner :: address
  owners :: "nat \<Rightarrow> address"
  balances :: "address \<Rightarrow> nat"
  nextTokenId :: nat
  randomNonce :: nat
  donationManager :: address
  donationDetails :: "nat \<Rightarrow> DonationDetail"
  donorTokens :: "address \<Rightarrow> nat list"

definition zeroDetail :: DonationDetail where
  "zeroDetail = \<lparr>dd_donor = 0, dd_amount = 0, dd_campaignId = 0, dd_campaignTitle = [],
     dd_timestamp = 0, dd_txHash = 0, dd_tier = Bronze\<rparr>"

subsection \<open>The Campaign Ledger (DonationManager)\<close>

text \<open>\<^verbatim>\<open>0.01 ether\<close>.\<close>

definition MIN_DONATION_FOR_NFT :: nat where
  "MIN_DONATION_FOR_NFT = ether div 100"

record Campaign =
  c_id :: nat
  c_title :: string
  c_description :: string
  c_imageCID :: string
  c_targetAmount :: nat
  c_totalRaised :: nat
  c_isActive :: bool
  c_createdAt :: nat
  c_deadline :: nat
  c_creator :: address

record Donation =
  d_id :: nat
  d_donor :: address
  d_campaignId :: nat
  d_amount :: nat
  d_timestamp :: nat
  d_txHash :: bytes32
  d_nftMinted :: bool

record Expense =
  e_id :: nat
  e_description :: string
  e_amount :: nat
  e_recipient :: address
  e_timestamp :: nat
  e_txHash :: bytes32
  e_campaignId :: nat

text \<open>
  The ledger's storage, with the three pieces of state the contract inherits or holds
  implicitly: \<open>m_owner\<close> (\<^verbatim>\<open>Ownable\<close>), \<open>m_locked\<close> (the \<^verbatim>\<open>ReentrancyGuard\<close> status is
  "entered") and \<open>m_balance\<close> (\<^verbatim>\<open>address(this).balance\<close>). Of the contract's own
  code, \<^verbatim>\<open>donate\<close> is the only payable entry point (\<^verbatim>\<open>receive\<close> reverts and the constructor
  is not payable) and \<^verbatim>\<open>withdrawWithLog\<close> the only one that sends value; but the balance of
  an address can also grow without any code of the contract running (see \<open>ForcedEther\<close>
  below).
\<close>

record DonationManager =
  m_owner :: address
  m_locked :: bool
  m_balance :: nat
  nftContract :: address
  nextCampaignId :: nat
  nextExpenseId :: nat
  totalDonationsReceived :: nat
  totalExpensesLogged :: nat
  campaigns :: "nat \<Rightarrow> Campaign"
  campaignIds :: "nat list"
  allDonations :: "Donation list"
  donorDonations :: "address \<Rightarrow> nat list"
  campaignDonations :: "nat \<Rightarrow> nat list"
  allExpenses :: "Expense list"
  donorTotalAmount :: "address \<Rightarrow> nat"
  uniqueDonors :: "address list"
  hasDonated :: "address \<Rightarrow> bool"

definition zeroCampaign :: Campaign where
  "zeroCampaign = \<lparr>c_id = 0, c_title = [], c_description = [], c_imageCID = [],
     c_targetAmount = 0, c_totalRaised = 0, c_isActive = False, c_createdAt = 0,
     c_deadline = 0, c_creator = 0\<rparr>"

subsection \<open>The Ballot Registry (Voting)\<close>

record Voting =
  v_owner :: address
  v_locked :: bool
  v_nftContract :: address
  campaignVotes :: "nat \<Rightarrow> nat"
  tokenUsed :: "nat \<Rightarrow> bool"

subsection \<open>The call environment\<close>

text \<open>
  What a call reads from outside the three contracts: \<^verbatim>\<open>msg.sender\<close>,
  \<^verbatim>\<open>block.timestamp\<close>, \<^verbatim>\<open>blockhash(block.number - 1)\<close>, \<^verbatim>\<open>block.prevrandao\<close>, the hash
  \<^verbatim>\<open>keccak256(abi.encodePacked(...))\<close> of the five values the registry packs (a parameter:
  nothing is assumed about it), and the code of the accounts that are called back:
  \<open>acceptsToken a\<close> says whether account \<open>a\<close> accepts a safe mint (always true of an
  account without code), and \<open>acceptsEther a v m\<close> whether account \<open>a\<close> accepts a
  transfer of \<open>v\<close> when the ledger it can observe is \<open>m\<close>. These two are the verdicts
  of the called-back code. The calls that a certificate's receiver makes into the three
  contracts from inside \<^verbatim>\<open>onERC721Received\<close>, before it returns its verdict, are an argument
  of \<open>donateWithCallback\<close> below; \<open>donate\<close> is the case where it makes none.
  \<^verbatim>\<open>msg.value\<close> is an argument of the one payable function, \<^verbatim>\<open>donate\<close>.
\<close>

record env =
  sender :: address
  timestamp :: nat
  prevhash :: bytes32
  prevrandao :: nat
  keccak256 :: "nat \<times> nat \<times> address \<times> nat \<times> nat \<Rightarrow> nat"
  acceptsToken :: "address \<Rightarrow> bool"
  acceptsEther :: "address \<Rightarrow> nat \<Rightarrow> DonationManager \<Rightarrow> bool"

subsection \<open>The world: one ledger, one ballot registry, the deployed certificate registries\<close>

record world =
  managerAddr :: address
  manager :: DonationManager
  voting :: Voting
  registries :: "address \<Rightarrow> DonachainNFT option"

subsection \<open>Operations of the Certificate Registry\<close>

text \<open>The constructor: \<^verbatim>\<open>Ownable(initialOwner)\<close> rejects the null address.\<close>

definition freshNFT :: "address \<Rightarrow> DonachainNFT" where
  "freshNFT initialOwner =
     \<lparr>n_owner = initialOwner, owners = (\<lambda>_. 0), balances = (\<lambda>_. 0),
      nextTokenId = 1, randomNonce = 0, donationManager = 0,
      donationDetails = (\<lambda>_. zeroDetail), donorTokens = (\<lambda>_. [])\<rparr>"

definition DonachainNFT_constructor :: "address \<Rightarrow> error + DonachainNFT" where
  "DonachainNFT_constructor initialOwner =
     (if initialOwner = 0 then Inl InvalidInput else Inr (freshNFT initialOwner))"

definition setDonationManager :: "env \<Rightarrow> address \<Rightarrow> DonachainNFT \<Rightarrow> error + DonachainNFT" where
  "setDonationManager e a n =
     (if sender e \<noteq> n_owner n then Inl Unauthorized
      else if a = 0 then Inl InvalidInput
      else Inr (n\<lparr>donationManager := a\<rparr>))"

text \<open>\<^verbatim>\<open>_generateRandom\<close>: the nonce is incremented, then the hash is reduced modulo 10000.\<close>

definition generateRandom :: "env \<Rightarrow> address \<Rightarrow> nat \<Rightarrow> DonachainNFT \<Rightarrow> error + (nat \<times> DonachainNFT)" where
  "generateRandom e donor tokenId n =
     (if \<not> fits (randomNonce n + 1) then Inl Panic
      else let n1 = n\<lparr>randomNonce := randomNonce n + 1\<rparr> in
        Inr (keccak256 e (timestamp e, prevrandao e, donor, tokenId, randomNonce n1) mod 10000, n1))"

text \<open>\<^verbatim>\<open>_determineTier\<close>: the draw is checked first, then the amount.\<close>

definition determineTier :: "env \<Rightarrow> nat \<Rightarrow> address \<Rightarrow> nat \<Rightarrow> DonachainNFT \<Rightarrow> error + (Tier \<times> DonachainNFT)" where
  "determineTier e amount donor tokenId n =
     (case generateRandom e donor tokenId n of
        Inl err \<Rightarrow> Inl err
      | Inr (random, n1) \<Rightarrow>
          if random < SPECIAL_CHANCE then Inr (Special, n1)
          else if amount \<ge> GOLD_THRESHOLD then Inr (Gold, n1)
          else if amount \<ge> SILVER_THRESHOLD then Inr (Silver, n1)
          else Inr (Bronze, n1))"

text \<open>
  \<^verbatim>\<open>_safeMint\<close> of the ERC-721 base contract: the receiver is not the null address, the
  token does not exist yet, and a receiver with code must accept the token. This is the
  mint to a receiver whose \<^verbatim>\<open>onERC721Received\<close> only answers; a receiver that calls into
  the three contracts before it answers is treated in \<open>mintBegin\<close> and
  \<open>donateWithCallback\<close>.
\<close>

definition safeMint :: "env \<Rightarrow> address \<Rightarrow> nat \<Rightarrow> DonachainNFT \<Rightarrow> error + DonachainNFT" where
  "safeMint e to tokenId n =
     (if to = 0 then Inl InvalidReceiver
      else if owners n tokenId \<noteq> 0 then Inl InvalidSender
      else if \<not> acceptsToken e to then Inl InvalidReceiver
      else Inr (n\<lparr>owners := (owners n)(tokenId := to),
                  balances := (balances n)(to := balances n to + 1)\<rparr>))"

definition mintCertificate ::
  "env \<Rightarrow> address \<Rightarrow> nat \<Rightarrow> nat \<Rightarrow> string \<Rightarrow> bytes32 \<Rightarrow> DonachainNFT \<Rightarrow> error + (nat \<times> DonachainNFT)" where
  "mintCertificate e donor amount campaignId campaignTitle txHash n =
     (if sender e \<noteq> donationManager n then Inl Unauthorized
      else if \<not> fits (nextTokenId n + 1) then Inl Panic
      else let tokenId = nextTokenId n; n1 = n\<lparr>nextTokenId := tokenId + 1\<rparr> in
        case determineTier e amount donor tokenId n1 of
          Inl err \<Rightarrow> Inl err
        | Inr (tier, n2) \<Rightarrow>
            (case safeMint e donor tokenId n2 of
               Inl err \<Rightarrow> Inl err
             | Inr n3 \<Rightarrow>
                 Inr (tokenId,
                   n3\<lparr>donationDetails := (donationDetails n3)(tokenId :=
                         \<lparr>dd_donor = donor, dd_amount = amount, dd_campaignId = campaignId,
                          dd_campaignTitle = campaignTitle, dd_timestamp = timestamp e,
                          dd_txHash = txHash, dd_tier = tier\<rparr>),
                      donorTokens := (donorTokens n3)(donor := donorTokens n3 donor @ [tokenId])\<rparr>)))"

text \<open>
  \<^verbatim>\<open>mintCertificate\<close> in two halves, cut where \<^verbatim>\<open>_safeMint\<close> hands control to the receiver.
  \<open>mintBegin\<close> is the code up to that point: the id is taken, the tier drawn, and \<^verbatim>\<open>_mint\<close>
  has made the receiver the owner of the token. \<open>mintEnd\<close> is the code after the receiver
  has accepted: \<^verbatim>\<open>donationDetails[tokenId]\<close> is written and the id is appended to
  \<^verbatim>\<open>donorTokens[donor]\<close>.
\<close>

definition mintBegin ::
  "env \<Rightarrow> address \<Rightarrow> nat \<Rightarrow> DonachainNFT \<Rightarrow> error + (nat \<times> Tier \<times> DonachainNFT)" where
  "mintBegin e donor amount n =
     (if sender e \<noteq> donationManager n then Inl Unauthorized
      else if \<not> fits (nextTokenId n + 1) then Inl Panic
      else let tokenId = nextTokenId n; n1 = n\<lparr>nextTokenId := tokenId + 1\<rparr> in
        case determineTier e amount donor tokenId n1 of
          Inl err \<Rightarrow> Inl err
        | Inr (tier, n2) \<Rightarrow>
            if donor = 0 then Inl InvalidReceiver
            else if owners n2 tokenId \<noteq> 0 then Inl InvalidSender
            else Inr (tokenId, tier,
                   n2\<lparr>owners := (owners n2)(tokenId := donor),
                      balances := (balances n2)(donor := balances n2 donor + 1)\<rparr>))"

definition mintEnd ::
  "env \<Rightarrow> address \<Rightarrow> nat \<Rightarrow> nat \<Rightarrow> string \<Rightarrow> bytes32 \<Rightarrow> nat \<Rightarrow> Tier \<Rightarrow> DonachainNFT \<Rightarrow> DonachainNFT" where
  "mintEnd e donor amount campaignId campaignTitle txHash tokenId tier n =
     n\<lparr>donationDetails := (donationDetails n)(tokenId :=
          \<lparr>dd_donor = donor, dd_amount = amount, dd_campaignId = campaignId,
           dd_campaignTitle = campaignTitle, dd_timestamp = timestamp e,
           dd_txHash = txHash, dd_tier = tier\<rparr>),
       donorTokens := (donorTokens n)(donor := donorTokens n donor @ [tokenId])\<rparr>"

text \<open>\<^verbatim>\<open>ownerOf\<close> of the ERC-721 base contract reverts for a token that does not exist.\<close>

definition ownerOf :: "DonachainNFT \<Rightarrow> nat \<Rightarrow> error + address" where
  "ownerOf n tokenId = (if owners n tokenId = 0 then Inl NotFound else Inr (owners n tokenId))"

definition getDonationDetail :: "DonachainNFT \<Rightarrow> nat \<Rightarrow> error + DonationDetail" where
  "getDonationDetail n tokenId =
     (if owners n tokenId = 0 then Inl NotFound else Inr (donationDetails n tokenId))"

definition totalSupply :: "DonachainNFT \<Rightarrow> nat" where
  "totalSupply n = nextTokenId n - 1"

text \<open>
  \<^verbatim>\<open>transferFrom\<close> of the ERC-721 base contract, for a transfer by the token's owner
  (approvals are not modelled): ownership moves, the certificate's details stay.
\<close>

definition transferFrom :: "env \<Rightarrow> address \<Rightarrow> address \<Rightarrow> nat \<Rightarrow> DonachainNFT \<Rightarrow> error + DonachainNFT" where
  "transferFrom e from to tokenId n =
     (if to = 0 then Inl InvalidReceiver
      else if owners n tokenId = 0 then Inl NotFound
      else if sender e \<noteq> owners n tokenId then Inl Unauthorized
      else if owners n tokenId \<noteq> from then Inl NotOwner
      else let b1 = (balances n)(from := balances n from - 1);
               b2 = b1(to := b1 to + 1)
           in Inr (n\<lparr>owners := (owners n)(tokenId := to), balances := b2\<rparr>))"

definition N_transferOwnership :: "env \<Rightarrow> address \<Rightarrow> DonachainNFT \<Rightarrow> error + DonachainNFT" where
  "N_transferOwnership e a n =
     (if sender e \<noteq> n_owner n then Inl Unauthorized
      else if a = 0 then Inl InvalidInput
      else Inr (n\<lparr>n_owner := a\<rparr>))"

subsection \<open>Operations of the Campaign Ledger\<close>

definition freshManager :: "address \<Rightarrow> DonationManager" where
  "freshManager initialOwner =
     \<lparr>m_owner = initialOwner, m_locked = False, m_balance = 0, nftContract = 0,
      nextCampaignId = 1, nextExpenseId = 1, totalDonationsReceived = 0,
      totalExpensesLogged = 0, campaigns = (\<lambda>_. zeroCampaign), campaignIds = [],
      allDonations = [], donorDonations = (\<lambda>_. []), campaignDonations = (\<lambda>_. []),
      allExpenses = [], donorTotalAmount = (\<lambda>_. 0), uniqueDonors = [],
      hasDonated = (\<lambda>_. False)\<rparr>"

definition DonationManager_constructor :: "address \<Rightarrow> error + DonationManager" where
  "DonationManager_constructor initialOwner =
     (if initialOwner = 0 then Inl InvalidInput else Inr (freshManager initialOwner))"

definition setNFTContract :: "env \<Rightarrow> address \<Rightarrow> DonationManager \<Rightarrow> error + DonationManager" where
  "setNFTContract e a m =
     (if sender e \<noteq> m_owner m then Inl Unauthorized
      else if a = 0 then Inl InvalidInput
      else Inr (m\<lparr>nftContract := a\<rparr>))"

definition M_transferOwnership :: "env \<Rightarrow> address \<Rightarrow> DonationManager \<Rightarrow> error + DonationManager" where
  "M_transferOwnership e a m =
     (if sender e \<noteq> m_owner m then Inl Unauthorized
      else if a = 0 then Inl InvalidInput
      else Inr (m\<lparr>m_owner := a\<rparr>))"

definition createCampaign ::
  "env \<Rightarrow> string \<Rightarrow> string \<Rightarrow> string \<Rightarrow> nat \<Rightarrow> nat \<Rightarrow> DonationManager \<Rightarrow> error + (nat \<times> DonationManager)" where
  "createCampaign e title description imageCID targetAmount deadline m =
     (if sender e \<noteq> m_owner m then Inl Unauthorized
      else if \<not> length title > 0 then Inl InvalidInput
      else if \<not> length title \<le> 100 then Inl InvalidInput
      else if \<not> length description > 0 then Inl InvalidInput
      else if \<not> targetAmount > 0 then Inl InvalidInput
      else if \<not> deadline > timestamp e then Inl InvalidInput
      else if \<not> fits (nextCampaignId m + 1) then Inl Panic
      else let campaignId = nextCampaignId m in
        Inr (campaignId,
          m\<lparr>nextCampaignId := campaignId + 1,
            campaigns := (campaigns m)(campaignId :=
              \<lparr>c_id = campaignId, c_title = title, c_description = description,
               c_imageCID = imageCID, c_targetAmount = targetAmount, c_totalRaised = 0,
               c_isActive = True, c_createdAt = timestamp e, c_deadline = deadline,
               c_creator = sender e\<rparr>),
            campaignIds := campaignIds m @ [campaignId]\<rparr>))"

definition updateCampaignStatus :: "env \<Rightarrow> nat \<Rightarrow> bool \<Rightarrow> DonationManager \<Rightarrow> error + DonationManager" where
  "updateCampaignStatus e campaignId isActive m =
     (if sender e \<noteq> m_owner m then Inl Unauthorized
      else if \<not> c_id (campaigns m campaignId) \<noteq> 0 then Inl NotFound
      else Inr (m\<lparr>campaigns := (campaigns m)(campaignId :=
                  (campaigns m campaignId)\<lparr>c_isActive := isActive\<rparr>)\<rparr>))"

text \<open>
  \<^verbatim>\<open>receive()\<close> reverts: a plain transfer of value to the ledger is never accepted.
\<close>

definition receive :: "DonationManager \<Rightarrow> error + DonationManager" where
  "receive m = Inl InvalidInput"

text \<open>
  \<^verbatim>\<open>recipient.transfer(amount)\<close>, seen from the recipient: the ledger itself rejects
  (\<^verbatim>\<open>receive\<close> reverts), a certificate registry has no payable entry point, any other
  account runs its own code on the ledger state \<open>m\<close> it can observe at that moment.
\<close>

definition transferAccepted :: "env \<Rightarrow> world \<Rightarrow> address \<Rightarrow> nat \<Rightarrow> DonationManager \<Rightarrow> bool" where
  "transferAccepted e w recipient amount m =
     (if recipient = managerAddr w then (case receive m of Inl _ \<Rightarrow> False | Inr _ \<Rightarrow> True)
      else if registries w recipient \<noteq> None then False
      else acceptsEther e recipient amount m)"

text \<open>
  Lines 387 to 404 of \<^verbatim>\<open>withdrawWithLog\<close>: the expense id is taken, the Expense record
  is appended and the total spent is incremented.
\<close>

definition logExpense :: "env \<Rightarrow> string \<Rightarrow> address \<Rightarrow> nat \<Rightarrow> nat \<Rightarrow> DonationManager \<Rightarrow> DonationManager" where
  "logExpense e description recipient amount campaignId m =
     (let expenseId = nextExpenseId m;
          expense = \<lparr>e_id = expenseId, e_description = description, e_amount = amount,
                     e_recipient = recipient, e_timestamp = timestamp e,
                     e_txHash = prevhash e, e_campaignId = campaignId\<rparr>
      in m\<lparr>nextExpenseId := expenseId + 1,
           allExpenses := allExpenses m @ [expense],
           totalExpensesLogged := totalExpensesLogged m + amount\<rparr>)"

text \<open>
  \<^verbatim>\<open>withdrawWithLog\<close>: \<^verbatim>\<open>onlyOwner\<close>, then \<^verbatim>\<open>nonReentrant\<close>, then the four
  \<^verbatim>\<open>require\<close>s; the expense is logged; then the transfer runs, the value having left the
  ledger's balance when the recipient's code executes; the guard is released at the end.
\<close>

definition withdrawWithLog ::
  "env \<Rightarrow> string \<Rightarrow> address \<Rightarrow> nat \<Rightarrow> nat \<Rightarrow> world \<Rightarrow> error + world" where
  "withdrawWithLog e description recipient amount campaignId w =
     (let m = manager w in
      if sender e \<noteq> m_owner m then Inl Unauthorized
      else if m_locked m then Inl Reentrant
      else if \<not> length description > 0 then Inl InvalidInput
      else if \<not> recipient \<noteq> 0 then Inl InvalidInput
      else if \<not> amount > 0 then Inl InvalidInput
      else if \<not> m_balance m \<ge> amount then Inl InsufficientBalance
      else if \<not> fits (nextExpenseId m + 1) then Inl Panic
      else if \<not> fits (totalExpensesLogged m + amount) then Inl Panic
      else
        let m1 = logExpense e description recipient amount campaignId (m\<lparr>m_locked := True\<rparr>);
            m2 = m1\<lparr>m_balance := m_balance m1 - amount\<rparr>
        in if \<not> transferAccepted e w recipient amount m2 then Inl TransferFailed
           else Inr (w\<lparr>manager := m2\<lparr>m_locked := False\<rparr>\<rparr>))"

text \<open>
  Lines 437 to 464 of \<^verbatim>\<open>donate\<close>: the Donation record is appended, the indices and the
  three totals are updated, a first-time donor is added to \<^verbatim>\<open>uniqueDonors\<close>.
\<close>

definition recordDonation :: "env \<Rightarrow> nat \<Rightarrow> nat \<Rightarrow> DonationManager \<Rightarrow> DonationManager" where
  "recordDonation e campaignId msg_value m =
     (let campaign = campaigns m campaignId;
          donationId = length (allDonations m) + 1;
          donation = \<lparr>d_id = donationId, d_donor = sender e, d_campaignId = campaignId,
                      d_amount = msg_value, d_timestamp = timestamp e,
                      d_txHash = prevhash e, d_nftMinted = False\<rparr>;
          donationIndex = length (allDonations m);
          m1 = m\<lparr>allDonations := allDonations m @ [donation],
                 donorDonations := (donorDonations m)(sender e :=
                    donorDonations m (sender e) @ [donationIndex]),
                 campaignDonations := (campaignDonations m)(campaignId :=
                    campaignDonations m campaignId @ [donationIndex]),
                 campaigns := (campaigns m)(campaignId :=
                    campaign\<lparr>c_totalRaised := c_totalRaised campaign + msg_value\<rparr>),
                 totalDonationsReceived := totalDonationsReceived m + msg_value,
                 donorTotalAmount := (donorTotalAmount m)(sender e :=
                    donorTotalAmount m (sender e) + msg_value)\<rparr>
      in if \<not> hasDonated m1 (sender e)
         then m1\<lparr>hasDonated := (hasDonated m1)(sender e := True),
                 uniqueDonors := uniqueDonors m1 @ [sender e]\<rparr>
         else m1)"

text \<open>\<^verbatim>\<open>allDonations[donationIndex].nftMinted = true\<close> for the donation just appended.\<close>

definition markMinted :: "DonationManager \<Rightarrow> DonationManager" where
  "markMinted m =
     (let donationIndex = length (allDonations m) - 1
      in m\<lparr>allDonations := (allDonations m)[donationIndex :=
              (allDonations m ! donationIndex)\<lparr>d_nftMinted := True\<rparr>]\<rparr>)"

text \<open>
  \<^verbatim>\<open>donate\<close>: \<^verbatim>\<open>nonReentrant\<close>, the four \<^verbatim>\<open>require\<close>s in the order of the source, the
  bookkeeping (its checked additions first), then the mint in the registry the ledger
  points at, called with the ledger as \<^verbatim>\<open>msg.sender\<close>. The attached value is part of
  the ledger's balance from the start of the call. A failing mint fails the whole call.
\<close>

definition donate :: "env \<Rightarrow> nat \<Rightarrow> nat \<Rightarrow> world \<Rightarrow> error + world" where
  "donate e campaignId msg_value w =
     (let m = manager w in
      if m_locked m then Inl Reentrant
      else if \<not> msg_value > 0 then Inl InvalidInput
      else if \<not> c_id (campaigns m campaignId) \<noteq> 0 then Inl NotFound
      else if \<not> c_isActive (campaigns m campaignId) then Inl CampaignInactive
      else if \<not> timestamp e \<le> c_deadline (campaigns m campaignId) then Inl DeadlinePassed
      else if \<not> fits (length (allDonations m) + 1) then Inl Panic
      else if \<not> fits (c_totalRaised (campaigns m campaignId) + msg_value) then Inl Panic
      else if \<not> fits (totalDonationsReceived m + msg_value) then Inl Panic
      else if \<not> fits (donorTotalAmount m (sender e) + msg_value) then Inl Panic
      else
        let m1 = recordDonation e campaignId msg_value
                   (m\<lparr>m_locked := True, m_balance := m_balance m + msg_value\<rparr>)
        in if msg_value \<ge> MIN_DONATION_FOR_NFT \<and> nftContract m1 \<noteq> 0 then
             (case registries w (nftContract m1) of
                None \<Rightarrow> Inl NoContract
              | Some n \<Rightarrow>
                  (case mintCertificate (e\<lparr>sender := managerAddr w\<rparr>) (sender e) msg_value
                          campaignId (c_title (campaigns m campaignId)) (prevhash e) n of
                     Inl err \<Rightarrow> Inl err
                   | Inr (tokenId, n') \<Rightarrow>
                       Inr (w\<lparr>manager := (markMinted m1)\<lparr>m_locked := False\<rparr>,
                              registries := (registries w)(nftContract m1 \<mapsto> n')\<rparr>)))
           else Inr (w\<lparr>manager := m1\<lparr>m_locked := False\<rparr>\<rparr>))"

text \<open>
  \<^verbatim>\<open>getLeaderboard\<close>. The two working arrays are filled from \<^verbatim>\<open>uniqueDonors\<close> and
  \<^verbatim>\<open>donorTotalAmount\<close>; the nested loops compare position \<open>i\<close> with every later position
  \<open>j\<close> and swap both arrays when the later total is strictly larger; the first
  \<open>cnt\<close> entries (the argument \<^verbatim>\<open>count\<close>, capped at the number of donors) are copied out.
\<close>

definition swap :: "nat \<Rightarrow> nat \<Rightarrow> 'a list \<Rightarrow> 'a list" where
  "swap i j xs = xs[i := xs ! j, j := xs ! i]"

function sortInner :: "nat \<Rightarrow> nat \<Rightarrow> nat \<Rightarrow> address list \<times> nat list \<Rightarrow> address list \<times> nat list" where
  "sortInner i j donorCount (donors, totals) =
     (if j < donorCount
      then sortInner i (j + 1) donorCount
             (if totals ! j > totals ! i then (swap i j donors, swap i j totals)
              else (donors, totals))
      else (donors, totals))"
  by pat_completeness auto
termination
  by (relation "measure (\<lambda>(i, j, donorCount, p). donorCount - j)") auto

function sortOuter :: "nat \<Rightarrow> nat \<Rightarrow> address list \<times> nat list \<Rightarrow> address list \<times> nat list" where
  "sortOuter i donorCount p =
     (if i < donorCount
      then sortOuter (i + 1) donorCount (sortInner i (i + 1) donorCount p)
      else p)"
  by pat_completeness auto
termination
  by (relation "measure (\<lambda>(i, donorCount, p). donorCount - i)") auto

definition getLeaderboard :: "nat \<Rightarrow> DonationManager \<Rightarrow> address list \<times> nat list" where
  "getLeaderboard cnt m =
     (let donorCount = length (uniqueDonors m);
          count1 = (if cnt > donorCount then donorCount else cnt);
          donors = uniqueDonors m;
          totals = map (donorTotalAmount m) (uniqueDonors m);
          sorted = sortOuter 0 donorCount (donors, totals)
      in (take count1 (fst sorted), take count1 (snd sorted)))"

subsection \<open>Operations of the Ballot Registry\<close>

definition freshVoting :: "address \<Rightarrow> address \<Rightarrow> Voting" where
  "freshVoting deployer nft =
     \<lparr>v_owner = deployer, v_locked = False, v_nftContract = nft,
      campaignVotes = (\<lambda>_. 0), tokenUsed = (\<lambda>_. False)\<rparr>"

definition Voting_constructor :: "env \<Rightarrow> address \<Rightarrow> error + Voting" where
  "Voting_constructor e nft =
     (if nft = 0 then Inl InvalidInput else Inr (freshVoting (sender e) nft))"

definition V_setNFTContract :: "env \<Rightarrow> address \<Rightarrow> Voting \<Rightarrow> error + Voting" where
  "V_setNFTContract e a v =
     (if sender e \<noteq> v_owner v then Inl Unauthorized
      else if a = 0 then Inl InvalidInput
      else Inr (v\<lparr>v_nftContract := a\<rparr>))"

definition V_transferOwnership :: "env \<Rightarrow> address \<Rightarrow> Voting \<Rightarrow> error + Voting" where
  "V_transferOwnership e a v =
     (if sender e \<noteq> v_owner v then Inl Unauthorized
      else if a = 0 then Inl InvalidInput
      else Inr (v\<lparr>v_owner := a\<rparr>))"

text \<open>
  \<^verbatim>\<open>vote\<close> reads the registry the ballot points at (\<^verbatim>\<open>ownerOf\<close>, \<^verbatim>\<open>donationDetails\<close>)
  and its own storage, nothing else: the ledger is not among its arguments.
\<close>

definition vote ::
  "env \<Rightarrow> nat \<Rightarrow> nat \<Rightarrow> (address \<Rightarrow> DonachainNFT option) \<Rightarrow> Voting \<Rightarrow> error + Voting" where
  "vote e campaignId tokenId regs v =
     (if v_locked v then Inl Reentrant
      else case regs (v_nftContract v) of
             None \<Rightarrow> Inl NoContract
           | Some n \<Rightarrow>
               (case ownerOf n tokenId of
                  Inl err \<Rightarrow> Inl err
                | Inr holder \<Rightarrow>
                    if \<not> holder = sender e then Inl NotOwner
                    else if \<not> \<not> tokenUsed v tokenId then Inl AlreadyUsed
                    else if \<not> dd_campaignId (donationDetails n tokenId) = campaignId
                      then Inl CampaignMismatch
                    else if \<not> fits (campaignVotes v campaignId + 1) then Inl Panic
                    else Inr (v\<lparr>tokenUsed := (tokenUsed v)(tokenId := True),
                                campaignVotes := (campaignVotes v)(campaignId :=
                                  campaignVotes v campaignId + 1),
                                v_locked := False\<rparr>)))"

definition hasVoted :: "Voting \<Rightarrow> nat \<Rightarrow> bool" where
  "hasVoted v tokenId = tokenUsed v tokenId"

definition getVotes :: "Voting \<Rightarrow> nat \<Rightarrow> nat" where
  "getVotes v campaignId = campaignVotes v campaignId"

subsection \<open>Calls and reachable states\<close>

text \<open>
  The external calls of the three contracts, and the deployment of a further certificate
  registry at a fresh address. The first argument of a registry call is the address of
  the registry that is called. \<open>ForcedEther v\<close> is not a call: it is \<open>v\<close> wei reaching the
  ledger's address without the ledger's code running (the beneficiary of another
  contract's \<^verbatim>\<open>selfdestruct\<close>, a block reward, or ether sent to the address before the
  ledger was deployed there), which \<^verbatim>\<open>receive\<close> cannot refuse.
\<close>

datatype call =
    SetNFTContract address
  | CreateCampaign string string string nat nat
  | UpdateCampaignStatus nat bool
  | WithdrawWithLog string address nat nat
  | Donate nat nat
  | ManagerTransferOwnership address
  | DeployNFT address address
  | SetDonationManager address address
  | MintCertificate address address nat nat string bytes32
  | TransferFrom address address address nat
  | NFTTransferOwnership address address
  | VotingSetNFTContract address
  | VotingTransferOwnership address
  | Vote nat nat
  | ForcedEther nat

definition onManager :: "(DonationManager \<Rightarrow> error + DonationManager) \<Rightarrow> world \<Rightarrow> error + world" where
  "onManager f w = (case f (manager w) of Inl err \<Rightarrow> Inl err | Inr m \<Rightarrow> Inr (w\<lparr>manager := m\<rparr>))"

definition onVoting :: "(Voting \<Rightarrow> error + Voting) \<Rightarrow> world \<Rightarrow> error + world" where
  "onVoting f w = (case f (voting w) of Inl err \<Rightarrow> Inl err | Inr v \<Rightarrow> Inr (w\<lparr>voting := v\<rparr>))"

definition onRegistry :: "address \<Rightarrow> (DonachainNFT \<Rightarrow> error + DonachainNFT) \<Rightarrow> world \<Rightarrow> error + world" where
  "onRegistry a f w =
     (case registries w a of
        None \<Rightarrow> Inl NoContract
      | Some n \<Rightarrow> (case f n of Inl err \<Rightarrow> Inl err
                   | Inr n' \<Rightarrow> Inr (w\<lparr>registries := (registries w)(a \<mapsto> n')\<rparr>)))"

definition deployNFT :: "address \<Rightarrow> address \<Rightarrow> world \<Rightarrow> error + world" where
  "deployNFT a initialOwner w =
     (if a = 0 \<or> a = managerAddr w \<or> registries w a \<noteq> None then Inl InvalidInput
      else case DonachainNFT_constructor initialOwner of
             Inl err \<Rightarrow> Inl err
           | Inr n \<Rightarrow> Inr (w\<lparr>registries := (registries w)(a \<mapsto> n)\<rparr>))"

fun exec :: "env \<Rightarrow> call \<Rightarrow> world \<Rightarrow> error + world" where
  "exec e (SetNFTContract a) w = onManager (setNFTContract e a) w"
| "exec e (CreateCampaign t d i g dl) w =
     onManager (\<lambda>m. case createCampaign e t d i g dl m of
                      Inl err \<Rightarrow> Inl err | Inr (campaignId, m') \<Rightarrow> Inr m') w"
| "exec e (UpdateCampaignStatus c b) w = onManager (updateCampaignStatus e c b) w"
| "exec e (WithdrawWithLog d r a c) w = withdrawWithLog e d r a c w"
| "exec e (Donate c v) w = donate e c v w"
| "exec e (ManagerTransferOwnership a) w = onManager (M_transferOwnership e a) w"
| "exec e (DeployNFT a initialOwner) w = deployNFT a initialOwner w"
| "exec e (SetDonationManager r a) w = onRegistry r (setDonationManager e a) w"
| "exec e (MintCertificate r donor amount c t h) w =
     onRegistry r (\<lambda>n. case mintCertificate e donor amount c t h n of
                         Inl err \<Rightarrow> Inl err | Inr (tokenId, n') \<Rightarrow> Inr n') w"
| "exec e (TransferFrom r from to tokenId) w = onRegistry r (transferFrom e from to tokenId) w"
| "exec e (NFTTransferOwnership r a) w = onRegistry r (N_transferOwnership e a) w"
| "exec e (VotingSetNFTContract a) w = onVoting (V_setNFTContract e a) w"
| "exec e (VotingTransferOwnership a) w = onVoting (V_transferOwnership e a) w"
| "exec e (Vote c t) w = onVoting (vote e c t (registries w)) w"
| "exec e (ForcedEther v) w =
     Inr (w\<lparr>manager := (manager w)\<lparr>m_balance := m_balance (manager w) + v\<rparr>\<rparr>)"

text \<open>
  The states reachable from a fresh deployment (the ledger and the ballot registry
  constructed, no certificate registry yet) by successful calls that satisfy \<open>P\<close>; a
  failed call leaves the state as it was.
\<close>

inductive reachable_by :: "(call \<Rightarrow> bool) \<Rightarrow> world \<Rightarrow> bool" for P :: "call \<Rightarrow> bool" where
  init: "DonationManager_constructor initialOwner = Inr m \<Longrightarrow>
         Voting_constructor e nft = Inr v \<Longrightarrow> a \<noteq> 0 \<Longrightarrow>
         reachable_by P \<lparr>managerAddr = a, manager = m, voting = v, registries = (\<lambda>_. None)\<rparr>"
| step: "reachable_by P w \<Longrightarrow> P c \<Longrightarrow> exec e c w = Inr w' \<Longrightarrow> reachable_by P w'"

definition reachable :: "world \<Rightarrow> bool" where
  "reachable = reachable_by (\<lambda>c. True)"

text \<open>The calls other than re-pointing the ballot registry at a certificate registry.\<close>

fun keepsRegistry :: "call \<Rightarrow> bool" where
  "keepsRegistry (VotingSetNFTContract a) = False"
| "keepsRegistry c = True"

text \<open>A sequence of calls, each in its own environment; a failed call changes nothing.\<close>

fun run :: "(env \<times> call) list \<Rightarrow> world \<Rightarrow> world" where
  "run [] w = w"
| "run ((e, c) # cs) w = run cs (case exec e c w of Inl err \<Rightarrow> w | Inr w' \<Rightarrow> w')"

subsection \<open>A donation whose receiver calls back\<close>

text \<open>
  \<^verbatim>\<open>donate\<close> with the receiver's callback written out. The checks and the bookkeeping are
  those of \<open>donate\<close>. When a certificate is due, the registry runs \<open>mintBegin\<close> and calls
  \<^verbatim>\<open>onERC721Received\<close> of the donor; \<open>calls\<close> are the calls that this code makes into the
  three contracts before it returns (a call of these that fails is caught by the
  receiver). They run on the state of that moment: the ledger's guard is held and the
  donation recorded, the donor owns the new token, and the token's details are not
  written yet. Control then returns: the receiver's verdict is \<open>acceptsToken\<close>, the
  registry runs \<open>mintEnd\<close> on its storage as it then is, and the ledger sets \<^verbatim>\<open>nftMinted\<close>
  at the index it computed before the mint and releases the guard.
\<close>

definition donateWithCallback ::
  "env \<Rightarrow> (env \<times> call) list \<Rightarrow> nat \<Rightarrow> nat \<Rightarrow> world \<Rightarrow> error + world" where
  "donateWithCallback e calls campaignId msg_value w =
     (let m = manager w in
      if m_locked m then Inl Reentrant
      else if \<not> msg_value > 0 then Inl InvalidInput
      else if \<not> c_id (campaigns m campaignId) \<noteq> 0 then Inl NotFound
      else if \<not> c_isActive (campaigns m campaignId) then Inl CampaignInactive
      else if \<not> timestamp e \<le> c_deadline (campaigns m campaignId) then Inl DeadlinePassed
      else if \<not> fits (length (allDonations m) + 1) then Inl Panic
      else if \<not> fits (c_totalRaised (campaigns m campaignId) + msg_value) then Inl Panic
      else if \<not> fits (totalDonationsReceived m + msg_value) then Inl Panic
      else if \<not> fits (donorTotalAmount m (sender e) + msg_value) then Inl Panic
      else
        let m1 = recordDonation e campaignId msg_value
                   (m\<lparr>m_locked := True, m_balance := m_balance m + msg_value\<rparr>);
            donationIndex = length (allDonations m1) - 1;
            nft = nftContract m1
        in if msg_value \<ge> MIN_DONATION_FOR_NFT \<and> nft \<noteq> 0 then
             (case registries w nft of
                None \<Rightarrow> Inl NoContract
              | Some n \<Rightarrow>
                  (case mintBegin (e\<lparr>sender := managerAddr w\<rparr>) (sender e) msg_value n of
                     Inl err \<Rightarrow> Inl err
                   | Inr (tokenId, tier, n2) \<Rightarrow>
                       let w2 = run calls (w\<lparr>manager := m1, registries := (registries w)(nft \<mapsto> n2)\<rparr>)
                       in if \<not> acceptsToken e (sender e) then Inl InvalidReceiver
                          else (case registries w2 nft of
                                  None \<Rightarrow> Inl NoContract
                                | Some n3 \<Rightarrow>
                                    let m2 = manager w2 in
                                    Inr (w2\<lparr>manager := m2\<lparr>allDonations := (allDonations m2)[donationIndex :=
                                                 (allDonations m2 ! donationIndex)\<lparr>d_nftMinted := True\<rparr>],
                                               m_locked := False\<rparr>,
                                            registries := (registries w2)(nft \<mapsto>
                                               mintEnd (e\<lparr>sender := managerAddr w\<rparr>) (sender e) msg_value
                                                 campaignId (c_title (campaigns m campaignId)) (prevhash e)
                                                 tokenId tier n3)\<rparr>))))
           else Inr (w\<lparr>manager := m1\<lparr>m_locked := False\<rparr>\<rparr>))"

subsection \<open>Notions used to state the properties\<close>

text \<open>The order Bronze, Silver, Gold of the amount-based tiers.\<close>

fun tierRank :: "Tier \<Rightarrow> nat" where
  "tierRank Bronze = 0"
| "tierRank Silver = 1"
| "tierRank Gold = 2"
| "tierRank Special = 3"

text \<open>The sum of the amounts of the Donation records whose campaign id is \<open>c\<close>.\<close>

definition raisedFor :: "DonationManager \<Rightarrow> nat \<Rightarrow> nat" where
  "raisedFor m c = sum_list (map d_amount (filter (\<lambda>d. d_campaignId d = c) (allDonations m)))"

text \<open>
  The invariant of the ledger: the guard is free between calls, the balance is at least
  what was received minus what was spent, every campaign's total is the sum of its donations, ids
  from \<open>nextCampaignId\<close> on are unused, and a stored campaign carries its own key as id.
\<close>

definition ledger_inv :: "DonationManager \<Rightarrow> bool" where
  "ledger_inv m \<longleftrightarrow>
     \<not> m_locked m \<and>
     totalDonationsReceived m \<le> m_balance m + totalExpensesLogged m \<and>
     (\<forall>c. raisedFor m c = c_totalRaised (campaigns m c)) \<and>
     (\<forall>c. nextCampaignId m \<le> c \<longrightarrow> c_id (campaigns m c) = 0 \<and> c_totalRaised (campaigns m c) = 0) \<and>
     (\<forall>c. c_id (campaigns m c) = 0 \<or> c_id (campaigns m c) = c)"

subsection \<open>A deployment used for concrete checks\<close>

text \<open>
  The administrator is account 1, the ledger lives at address 100, certificate registries
  at 200 and 201; donors are accounts 7, 8 and 9. The hash is the constant 5000, so no
  draw is Special; every called-back account accepts.
\<close>

definition env0 :: "address \<Rightarrow> nat \<Rightarrow> env" where
  "env0 who now = \<lparr>sender = who, timestamp = now, prevhash = 0, prevrandao = 0,
     keccak256 = (\<lambda>_. 5000), acceptsToken = (\<lambda>_. True), acceptsEther = (\<lambda>_ _ _. True)\<rparr>"

definition world0 :: world where
  "world0 = \<lparr>managerAddr = 100, manager = freshManager 1, voting = freshVoting 1 200,
     registries = (\<lambda>_. None)\<rparr>"

definition deployment :: "(env \<times> call) list" where
  "deployment = [(env0 1 10, DeployNFT 200 1),
                 (env0 1 10, SetDonationManager 200 100),
                 (env0 1 10, SetNFTContract 200),
                 (env0 1 10, CreateCampaign ''Flood relief'' ''Help'' ''cid'' (10 ^ 18) 1000)]"

text \<open>What a call attaches to campaign \<open>c\<close>: the value of a \<^verbatim>\<open>donate\<close> for \<open>c\<close>, else nothing.\<close>

fun donatedTo :: "call \<Rightarrow> nat \<Rightarrow> nat" where
  "donatedTo (Donate c' v) c = (if c' = c then v else 0)"
| "donatedTo other c = 0"

text \<open>After the deployment, donor 7 gives 0.02 ether to campaign 1 at time 20.\<close>

definition donated :: world where
  "donated = run (deployment @ [(env0 7 20, Donate 1 (2 * 10 ^ 16))]) world0"


text \<open>
  After the deployment, the donor at address 7 is a contract whose \<^verbatim>\<open>onERC721Received\<close>
  calls \<^verbatim>\<open>Voting.vote(0, 1)\<close> and accepts the token; it donates 0.02 ether to campaign 1
  at time 20 and receives certificate 1.
\<close>

definition reentered :: world where
  "reentered =
     (case donateWithCallback (env0 7 20) [(env0 7 20, Vote 0 1)] 1 (2 * 10 ^ 16)
             (run deployment world0) of
        Inl err \<Rightarrow> run deployment world0
      | Inr w' \<Rightarrow> w')"

text \<open>After the deployment, the administrator deactivates campaign 1 at time 15.\<close>

definition paused :: world where
  "paused = run (deployment @ [(env0 1 15, UpdateCampaignStatus 1 False)]) world0"

text \<open>
  A call by the administrator at time 30 in which the recipient's code accepts a transfer
  only if the expense log is not empty and the total spent equals the amount received.
\<close>

definition auditingRecipient :: env where
  "auditingRecipient = (env0 1 30)\<lparr>acceptsEther :=
     (\<lambda>r a m. allExpenses m \<noteq> [] \<and> totalExpensesLogged m = a)\<rparr>"

text \<open>
  The leaderboard as the spec words it: the unique donors by total donated, descending,
  ties in insertion order (a stable sort), truncated to \<open>cnt\<close>.
\<close>

definition leaderboard_spec :: "nat \<Rightarrow> DonationManager \<Rightarrow> address list \<times> nat list" where
  "leaderboard_spec cnt m =
     (let ranked = sort_key (\<lambda>d. - int (donorTotalAmount m d)) (uniqueDonors m);
          top = take cnt ranked
      in (top, map (donorTotalAmount m) top))"

text \<open>
  The loop of \<^verbatim>\<open>getLeaderboard\<close> carries the comment \<^verbatim>\<open>// Simple bubble sort\<close>. For
  comparison, the sort of that name on the same data with the same test: passes over the
  list that exchange two neighbours when the later total is strictly larger.
\<close>

fun bubblePass :: "(address \<times> nat) list \<Rightarrow> (address \<times> nat) list" where
  "bubblePass (p # q # ps) =
     (if snd q > snd p then q # bubblePass (p # ps) else p # bubblePass (q # ps))"
| "bubblePass ps = ps"

definition bubbleSort :: "(address \<times> nat) list \<Rightarrow> (address \<times> nat) list" where
  "bubbleSort ps = (bubblePass ^^ length ps) ps"

text \<open>One pass of the body of the inner loop of \<^verbatim>\<open>getLeaderboard\<close>: compare, and swap.\<close>

definition cmpSwap :: "nat \<Rightarrow> nat \<Rightarrow> address list \<times> nat list \<Rightarrow> address list \<times> nat list" where
  "cmpSwap i j p = (if snd p ! j > snd p ! i then (swap i j (fst p), swap i j (snd p)) else p)"

text \<open>The sum of the amounts of the Donation records of donor \<open>a\<close>.\<close>

definition donatedBy :: "DonationManager \<Rightarrow> address \<Rightarrow> nat" where
  "donatedBy m a = sum_list (map d_amount (filter (\<lambda>d. d_donor d = a) (allDonations m)))"

text \<open>
  The invariant of the donor bookkeeping: \<^verbatim>\<open>uniqueDonors\<close> has no duplicates and lists
  exactly the donors of the Donation records, \<^verbatim>\<open>hasDonated\<close> is membership in it, and
  \<^verbatim>\<open>donorTotalAmount\<close> is the sum of the donor's donations.
\<close>

definition donors_inv :: "DonationManager \<Rightarrow> bool" where
  "donors_inv m \<longleftrightarrow>
     distinct (uniqueDonors m) \<and>
     set (uniqueDonors m) = d_donor ` set (allDonations m) \<and>
     (\<forall>a. hasDonated m a \<longleftrightarrow> a \<in> set (uniqueDonors m)) \<and>
     (\<forall>a. donatedBy m a = donorTotalAmount m a)"

text \<open>
  A campaign is created; donors 7 and 8 give 1 wei each, then donor 9 gives 2 wei.
\<close>

definition tied :: world where
  "tied = run [(env0 1 10, CreateCampaign ''Flood relief'' ''Help'' ''cid'' (10 ^ 18) 1000),
               (env0 7 20, Donate 1 1), (env0 8 21, Donate 1 1), (env0 9 22, Donate 1 2)] world0"

text \<open>
  The number of certificates of registry \<open>n\<close> (its tokens are \<open>1\<close> up to
  \<open>nextTokenId n - 1\<close>) whose used-flag is set and whose stored campaign id is \<open>c\<close>.
\<close>

definition usedCertificates :: "DonachainNFT \<Rightarrow> Voting \<Rightarrow> nat \<Rightarrow> nat" where
  "usedCertificates n v c =
     length (filter (\<lambda>t. tokenUsed v t \<and> dd_campaignId (donationDetails n t) = c)
               [1..<nextTokenId n])"

text \<open>
  Invariants: a registry's existing tokens lie between 1 and its next token id, which
  fits in 256 bits; a call lets a registry evolve by at most one new token and keeps the
  campaign id of the existing ones; used tokens are below \<open>2^256 - 1\<close> and the tallies
  count them along some assignment of tokens to campaigns; and, while the ballot registry
  is not re-pointed, along the campaign ids stored in the registry it points at.
\<close>

definition registry_inv :: "DonachainNFT \<Rightarrow> bool" where
  "registry_inv n \<longleftrightarrow>
     1 \<le> nextTokenId n \<and> fits (nextTokenId n) \<and>
     (\<forall>t. owners n t \<noteq> 0 \<longrightarrow> 1 \<le> t \<and> t < nextTokenId n)"

definition evolves :: "DonachainNFT \<Rightarrow> DonachainNFT \<Rightarrow> bool" where
  "evolves n n' \<longleftrightarrow>
     nextTokenId n \<le> nextTokenId n' \<and> nextTokenId n' \<le> nextTokenId n + 1 \<and>
     (\<forall>t. t < nextTokenId n \<longrightarrow>
        dd_campaignId (donationDetails n' t) = dd_campaignId (donationDetails n t))"

definition registries_inv :: "world \<Rightarrow> bool" where
  "registries_inv w \<longleftrightarrow> (\<forall>a n. registries w a = Some n \<longrightarrow> registry_inv n)"

definition tally_inv :: "Voting \<Rightarrow> bool" where
  "tally_inv v \<longleftrightarrow>
     \<not> v_locked v \<and>
     (\<forall>t. tokenUsed v t \<longrightarrow> 1 \<le> t \<and> t < MAX_UINT256) \<and>
     (\<exists>f. \<forall>c. campaignVotes v c = card {t. tokenUsed v t \<and> f t = c})"

definition ballot_inv :: "world \<Rightarrow> bool" where
  "ballot_inv w \<longleftrightarrow>
     (case registries w (v_nftContract (voting w)) of
        None \<Rightarrow> (\<forall>t. \<not> tokenUsed (voting w) t) \<and> (\<forall>c. campaignVotes (voting w) c = 0)
      | Some n \<Rightarrow>
          (\<forall>t. tokenUsed (voting w) t \<longrightarrow> 1 \<le> t \<and> t < nextTokenId n) \<and>
          (\<forall>c. campaignVotes (voting w) c = usedCertificates n (voting w) c))"

text \<open>How a successful call changes the registries: each one evolves, a new one is fresh.\<close>

definition registries_step :: "world \<Rightarrow> world \<Rightarrow> bool" where
  "registries_step w w' \<longleftrightarrow>
     (\<forall>a. case registries w a of
            Some n \<Rightarrow> (\<exists>n'. registries w' a = Some n' \<and> registry_inv n' \<and> evolves n n')
          | None \<Rightarrow> registries w' a = None \<or> (\<exists>i. registries w' a = Some (freshNFT i)))"

text \<open>The same count for the registry deployed at address \<open>a\<close>, if any.\<close>

definition usedCertificatesAt :: "world \<Rightarrow> address \<Rightarrow> nat \<Rightarrow> nat" where
  "usedCertificatesAt w a c =
     (case registries w a of None \<Rightarrow> 0 | Some n \<Rightarrow> usedCertificates n (voting w) c)"

text \<open>
  A registry whose minter is the administrator's own account: a certificate for campaign
  42, which the ledger does not know, is minted to donor 7.
\<close>

definition orphan :: world where
  "orphan = run [(env0 1 10, DeployNFT 200 1), (env0 1 10, SetDonationManager 200 1),
                 (env0 1 11, MintCertificate 200 7 (2 * 10 ^ 16) 42 ''Ghost'' 0)] world0"

text \<open>
  Two registries. Donor 7 holds certificate 1 of the first (campaign 1) and certificates
  1 and 2 of the second (campaigns 2 and 3). Donor 7 votes with certificate 1, the
  administrator re-points the ballot registry at the second registry, and donor 7
  votes with certificate 2.
\<close>

definition repointed :: world where
  "repointed = run [(env0 1 10, DeployNFT 200 1), (env0 1 10, DeployNFT 201 1),
                    (env0 1 10, SetDonationManager 200 1), (env0 1 10, SetDonationManager 201 1),
                    (env0 1 11, MintCertificate 200 7 (2 * 10 ^ 16) 1 ''One'' 0),
                    (env0 1 12, MintCertificate 201 7 (2 * 10 ^ 16) 2 ''Two'' 0),
                    (env0 1 13, MintCertificate 201 7 (2 * 10 ^ 16) 3 ''Three'' 0),
                    (env0 7 20, Vote 1 1),
                    (env0 1 21, VotingSetNFTContract 201),
                    (env0 7 22, Vote 3 2)] world0"

text \<open>After the donation of \<open>donated\<close>, donor 7 votes for campaign 1 with certificate 1.\<close>

definition voted :: world where
  "voted = run (deployment @ [(env0 7 20, Donate 1 (2 * 10 ^ 16)), (env0 7 30, Vote 1 1)]) world0"

section \<open>Properties\<close>

subsection \<open>The constants in wei\<close>

lemma MIN_DONATION_FOR_NFT_eq: "MIN_DONATION_FOR_NFT = 10 ^ 16"
  by (simp add: MIN_DONATION_FOR_NFT_def ether_def)

lemma SILVER_THRESHOLD_eq: "SILVER_THRESHOLD = 5 * 10 ^ 16"
  by (simp add: SILVER_THRESHOLD_def ether_def)

lemma GOLD_THRESHOLD_eq: "GOLD_THRESHOLD = 10 ^ 17"
  by (simp add: GOLD_THRESHOLD_def ether_def)

subsection \<open>Evaluating concrete calls\<close>

lemma fits_small: "n < 2 ^ 200 \<Longrightarrow> fits n"
  by (simp add: fits_def MAX_UINT256_def)

lemmas eval_defs =
  world0_def env0_def deployment_def donate_def withdrawWithLog_def onManager_def onRegistry_def
  onVoting_def deployNFT_def DonachainNFT_constructor_def freshNFT_def freshManager_def
  freshVoting_def setDonationManager_def setNFTContract_def createCampaign_def
  updateCampaignStatus_def recordDonation_def logExpense_def transferAccepted_def Let_def
  MIN_DONATION_FOR_NFT_eq mintCertificate_def determineTier_def generateRandom_def safeMint_def
  markMinted_def SPECIAL_CHANCE_def GOLD_THRESHOLD_eq SILVER_THRESHOLD_eq zeroCampaign_def
  zeroDetail_def vote_def ownerOf_def V_setNFTContract_def fits_small

subsection \<open>Reachability\<close>

lemma reachable_by_reachable: "reachable_by P w \<Longrightarrow> reachable w"
  unfolding reachable_def
  by (induction rule: reachable_by.induct) (auto intro: reachable_by.intros)

lemma reachable_step: "reachable w \<Longrightarrow> exec e c w = Inr w' \<Longrightarrow> reachable w'"
  unfolding reachable_def by (rule reachable_by.step) auto

lemma reachable_by_run: "reachable_by P w \<Longrightarrow> \<forall>p \<in> set cs. P (snd p) \<Longrightarrow> reachable_by P (run cs w)"
proof (induction cs arbitrary: w)
  case Nil
  then show ?case by simp
next
  case (Cons p cs)
  obtain e c where p: "p = (e, c)" by (cases p)
  show ?case
  proof (cases "exec e c w")
    case (Inl err)
    with Cons p show ?thesis by simp
  next
    case (Inr w')
    with Cons.prems p have "reachable_by P w'" by (auto intro: reachable_by.step)
    with Cons Inr p show ?thesis by simp
  qed
qed

lemma reachable_run: "reachable w \<Longrightarrow> reachable (run cs w)"
  unfolding reachable_def by (rule reachable_by_run) auto

lemma reachable_by_world0: "reachable_by P world0"
  unfolding world0_def
  by (rule reachable_by.init [where initialOwner = 1 and e = "env0 1 0" and nft = 200])
     (simp_all add: DonationManager_constructor_def Voting_constructor_def env0_def)

lemma reachable_world0: "reachable world0"
  unfolding reachable_def by (rule reachable_by_world0)

subsection \<open>The ledger's bookkeeping\<close>

lemma recordDonation_simps:
  "allDonations (recordDonation e c v m) = allDonations m @
     [\<lparr>d_id = length (allDonations m) + 1, d_donor = sender e, d_campaignId = c,
       d_amount = v, d_timestamp = timestamp e, d_txHash = prevhash e, d_nftMinted = False\<rparr>]"
  "campaigns (recordDonation e c v m) = (campaigns m)(c :=
     (campaigns m c)\<lparr>c_totalRaised := c_totalRaised (campaigns m c) + v\<rparr>)"
  "totalDonationsReceived (recordDonation e c v m) = totalDonationsReceived m + v"
  "totalExpensesLogged (recordDonation e c v m) = totalExpensesLogged m"
  "m_balance (recordDonation e c v m) = m_balance m"
  "m_locked (recordDonation e c v m) = m_locked m"
  "m_owner (recordDonation e c v m) = m_owner m"
  "nftContract (recordDonation e c v m) = nftContract m"
  "nextCampaignId (recordDonation e c v m) = nextCampaignId m"
  "nextExpenseId (recordDonation e c v m) = nextExpenseId m"
  "allExpenses (recordDonation e c v m) = allExpenses m"
  "donorTotalAmount (recordDonation e c v m) = (donorTotalAmount m)(sender e := donorTotalAmount m (sender e) + v)"
  by (simp_all add: recordDonation_def Let_def)

lemma markMinted_simps:
  "campaigns (markMinted m) = campaigns m"
  "totalDonationsReceived (markMinted m) = totalDonationsReceived m"
  "totalExpensesLogged (markMinted m) = totalExpensesLogged m"
  "m_balance (markMinted m) = m_balance m"
  "m_locked (markMinted m) = m_locked m"
  "m_owner (markMinted m) = m_owner m"
  "nftContract (markMinted m) = nftContract m"
  "nextCampaignId (markMinted m) = nextCampaignId m"
  "nextExpenseId (markMinted m) = nextExpenseId m"
  "allExpenses (markMinted m) = allExpenses m"
  "donorTotalAmount (markMinted m) = donorTotalAmount m"
  "uniqueDonors (markMinted m) = uniqueDonors m"
  by (simp_all add: markMinted_def Let_def)

lemma markMinted_recordDonation:
  "allDonations (markMinted (recordDonation e c v m)) = allDonations m @
     [\<lparr>d_id = length (allDonations m) + 1, d_donor = sender e, d_campaignId = c,
       d_amount = v, d_timestamp = timestamp e, d_txHash = prevhash e, d_nftMinted = True\<rparr>]"
  by (simp add: markMinted_def Let_def recordDonation_simps)

text \<open>What an accepted donation has checked, and the ledger it leaves.\<close>

lemma donate_Inr:
  assumes "donate e c v w = Inr w'"
  shows "\<not> m_locked (manager w)" and "v > 0" and "c_id (campaigns (manager w) c) \<noteq> 0"
    and "c_isActive (campaigns (manager w) c)"
    and "timestamp e \<le> c_deadline (campaigns (manager w) c)"
    and "manager w' =
       ((if v \<ge> MIN_DONATION_FOR_NFT \<and> nftContract (manager w) \<noteq> 0 then markMinted else id)
          (recordDonation e c v ((manager w)\<lparr>m_locked := True, m_balance := m_balance (manager w) + v\<rparr>)))
        \<lparr>m_locked := False\<rparr>"
    and "voting w' = voting w" and "managerAddr w' = managerAddr w"
  using assms
  by (auto simp: donate_def Let_def recordDonation_simps
           split: if_splits option.splits sum.splits prod.splits)

lemma donate_allDonations:
  assumes "donate e c v w = Inr w'"
  shows "allDonations (manager w') = allDonations (manager w) @
     [\<lparr>d_id = length (allDonations (manager w)) + 1, d_donor = sender e, d_campaignId = c,
       d_amount = v, d_timestamp = timestamp e, d_txHash = prevhash e,
       d_nftMinted = (v \<ge> MIN_DONATION_FOR_NFT \<and> nftContract (manager w) \<noteq> 0)\<rparr>]"
  using donate_Inr(6)[OF assms]
  by (simp add: recordDonation_simps markMinted_recordDonation)

lemma donate_fields:
  assumes "donate e c v w = Inr w'"
  shows "campaigns (manager w') = (campaigns (manager w))(c :=
           (campaigns (manager w) c)\<lparr>c_totalRaised := c_totalRaised (campaigns (manager w) c) + v\<rparr>)"
    and "totalDonationsReceived (manager w') = totalDonationsReceived (manager w) + v"
    and "totalExpensesLogged (manager w') = totalExpensesLogged (manager w)"
    and "m_balance (manager w') = m_balance (manager w) + v"
    and "m_locked (manager w') = False"
    and "nextCampaignId (manager w') = nextCampaignId (manager w)"
  using donate_Inr(6)[OF assms]
  by (simp_all add: recordDonation_simps markMinted_simps)

lemma raisedFor_append:
  "allDonations m' = allDonations m @ [d] \<Longrightarrow>
   raisedFor m' c = raisedFor m c + (if d_campaignId d = c then d_amount d else 0)"
  by (simp add: raisedFor_def)

lemma raisedFor_same: "allDonations m' = allDonations m \<Longrightarrow> raisedFor m' c = raisedFor m c"
  by (simp add: raisedFor_def)

lemma donate_ledger_inv:
  assumes d: "donate e c v w = Inr w'" and inv: "ledger_inv (manager w)"
  shows "ledger_inv (manager w')"
proof -
  note f = donate_fields[OF d]
  have r: "\<And>k. raisedFor (manager w') k = raisedFor (manager w) k + (if c = k then v else 0)"
    using raisedFor_append[OF donate_allDonations[OF d]] by simp
  have ex: "c_id (campaigns (manager w) c) \<noteq> 0" by (rule donate_Inr(3)[OF d])
  with inv have lt: "c < nextCampaignId (manager w)"
    unfolding ledger_inv_def by (meson not_le)
  show ?thesis
    unfolding ledger_inv_def
  proof (intro conjI allI impI)
    show "\<not> m_locked (manager w')" by (simp add: f)
    show "totalDonationsReceived (manager w') \<le> m_balance (manager w') + totalExpensesLogged (manager w')"
      using inv by (simp add: f ledger_inv_def)
    show "raisedFor (manager w') k = c_totalRaised (campaigns (manager w') k)" for k
      using inv by (simp add: f r ledger_inv_def)
    show "c_id (campaigns (manager w') k) = 0" if "nextCampaignId (manager w') \<le> k" for k
      using inv that lt by (simp add: f ledger_inv_def)
    show "c_totalRaised (campaigns (manager w') k) = 0" if "nextCampaignId (manager w') \<le> k" for k
      using inv that lt by (simp add: f ledger_inv_def)
    show "c_id (campaigns (manager w') k) = 0 \<or> c_id (campaigns (manager w') k) = k" for k
      using inv by (auto simp add: f ledger_inv_def)
  qed
qed

lemma logExpense_simps:
  "allExpenses (logExpense e d r a c m) = allExpenses m @
     [\<lparr>e_id = nextExpenseId m, e_description = d, e_amount = a, e_recipient = r,
       e_timestamp = timestamp e, e_txHash = prevhash e, e_campaignId = c\<rparr>]"
  "totalExpensesLogged (logExpense e d r a c m) = totalExpensesLogged m + a"
  "nextExpenseId (logExpense e d r a c m) = nextExpenseId m + 1"
  "totalDonationsReceived (logExpense e d r a c m) = totalDonationsReceived m"
  "m_balance (logExpense e d r a c m) = m_balance m"
  "m_locked (logExpense e d r a c m) = m_locked m"
  "campaigns (logExpense e d r a c m) = campaigns m"
  "allDonations (logExpense e d r a c m) = allDonations m"
  "nextCampaignId (logExpense e d r a c m) = nextCampaignId m"
  by (simp_all add: logExpense_def Let_def)

lemma withdrawWithLog_Inr:
  assumes "withdrawWithLog e d r a c w = Inr w'"
  shows "sender e = m_owner (manager w)" and "\<not> m_locked (manager w)" and "d \<noteq> []" and "r \<noteq> 0"
    and "a > 0" and "a \<le> m_balance (manager w)"
    and "transferAccepted e w r a
           ((logExpense e d r a c ((manager w)\<lparr>m_locked := True\<rparr>))\<lparr>m_balance := m_balance (manager w) - a\<rparr>)"
    and "manager w' = (logExpense e d r a c ((manager w)\<lparr>m_locked := True\<rparr>))
           \<lparr>m_balance := m_balance (manager w) - a, m_locked := False\<rparr>"
    and "voting w' = voting w" and "registries w' = registries w" and "managerAddr w' = managerAddr w"
  using assms
  by (auto simp: withdrawWithLog_def Let_def logExpense_simps split: if_splits)

lemma withdrawWithLog_ledger_inv:
  assumes d: "withdrawWithLog e d r a c w = Inr w'" and inv: "ledger_inv (manager w)"
  shows "ledger_inv (manager w')"
  using inv withdrawWithLog_Inr(6)[OF d]
  unfolding ledger_inv_def withdrawWithLog_Inr(8)[OF d]
  by (simp add: logExpense_simps raisedFor_def)

lemma createCampaign_ledger_inv:
  assumes "createCampaign e t d i g dl m = Inr (k, m')" and "ledger_inv m"
  shows "ledger_inv m'"
  using assms
  by (auto simp: createCampaign_def ledger_inv_def raisedFor_def Let_def split: if_splits)

lemma updateCampaignStatus_ledger_inv:
  assumes "updateCampaignStatus e c b m = Inr m'" and "ledger_inv m"
  shows "ledger_inv m'"
  using assms
  by (auto simp: updateCampaignStatus_def ledger_inv_def raisedFor_def split: if_splits)

lemma setNFTContract_ledger_inv:
  assumes "setNFTContract e a m = Inr m'" and "ledger_inv m"
  shows "ledger_inv m'"
  using assms
  by (auto simp: setNFTContract_def ledger_inv_def raisedFor_def split: if_splits)

lemma M_transferOwnership_ledger_inv:
  assumes "M_transferOwnership e a m = Inr m'" and "ledger_inv m"
  shows "ledger_inv m'"
  using assms
  by (auto simp: M_transferOwnership_def ledger_inv_def raisedFor_def split: if_splits)

lemma onRegistry_manager: "onRegistry r f w = Inr w' \<Longrightarrow> manager w' = manager w"
  by (auto simp: onRegistry_def split: option.splits sum.splits)

lemma onVoting_manager: "onVoting f w = Inr w' \<Longrightarrow> manager w' = manager w"
  by (auto simp: onVoting_def split: sum.splits)

lemma deployNFT_manager: "deployNFT a i w = Inr w' \<Longrightarrow> manager w' = manager w"
  by (auto simp: deployNFT_def split: if_splits sum.splits)

lemma onManager_Inr: "onManager f w = Inr w' \<Longrightarrow> \<exists>m'. f (manager w) = Inr m' \<and> w' = w\<lparr>manager := m'\<rparr>"
  by (auto simp: onManager_def split: sum.splits)

lemma exec_ledger_inv:
  assumes "exec e c w = Inr w'" and "ledger_inv (manager w)"
  shows "ledger_inv (manager w')"
proof (cases c)
  case (SetNFTContract a)
  with assms show ?thesis by (auto dest!: onManager_Inr intro: setNFTContract_ledger_inv)
next
  case (CreateCampaign t d i g dl)
  with assms show ?thesis
    by (auto dest!: onManager_Inr split: sum.splits prod.splits intro: createCampaign_ledger_inv)
next
  case (UpdateCampaignStatus k b)
  with assms show ?thesis by (auto dest!: onManager_Inr intro: updateCampaignStatus_ledger_inv)
next
  case (WithdrawWithLog d r a k)
  with assms show ?thesis by (auto intro: withdrawWithLog_ledger_inv)
next
  case (Donate k v)
  with assms show ?thesis by (auto intro: donate_ledger_inv)
next
  case (ManagerTransferOwnership a)
  with assms show ?thesis by (auto dest!: onManager_Inr intro: M_transferOwnership_ledger_inv)
next
  case (ForcedEther v)
  with assms show ?thesis by (auto simp: ledger_inv_def raisedFor_def)
qed (use assms in \<open>auto dest: onRegistry_manager onVoting_manager deployNFT_manager\<close>)

lemma reachable_ledger_inv: "reachable w \<Longrightarrow> ledger_inv (manager w)"
  unfolding reachable_def
proof (induction rule: reachable_by.induct)
  case (init initialOwner m e nft v a)
  then show ?case
    by (auto simp: DonationManager_constructor_def freshManager_def ledger_inv_def raisedFor_def
        zeroCampaign_def split: if_splits)
next
  case (step w c e w')
  then show ?case by (auto intro: exec_ledger_inv)
qed

text \<open>What a successful call adds to a campaign's total.\<close>

lemma exec_totalRaised:
  assumes ex: "exec e c w = Inr w'" and inv: "ledger_inv (manager w)"
  shows "c_totalRaised (campaigns (manager w') k) = c_totalRaised (campaigns (manager w) k) + donatedTo c k"
proof (cases c)
  case (SetNFTContract a)
  with ex show ?thesis by (auto dest!: onManager_Inr simp: setNFTContract_def split: if_splits)
next
  case (CreateCampaign t d i g dl)
  with ex inv show ?thesis
    by (auto dest!: onManager_Inr simp: createCampaign_def ledger_inv_def Let_def
        split: sum.splits prod.splits if_splits)
next
  case (UpdateCampaignStatus j b)
  with ex show ?thesis by (auto dest!: onManager_Inr simp: updateCampaignStatus_def split: if_splits)
next
  case (WithdrawWithLog d r a j)
  with ex show ?thesis by (auto dest!: withdrawWithLog_Inr(8) simp: logExpense_simps)
next
  case (Donate j v)
  with ex show ?thesis by (auto dest!: donate_fields(1))
next
  case (ManagerTransferOwnership a)
  with ex show ?thesis by (auto dest!: onManager_Inr simp: M_transferOwnership_def split: if_splits)
next
  case (ForcedEther v)
  with ex show ?thesis by auto
qed (use ex in \<open>auto dest: onRegistry_manager onVoting_manager deployNFT_manager\<close>)


lemma reachable_donated: "reachable donated"
  unfolding donated_def by (rule reachable_run [OF reachable_world0])

subsection \<open>Claim C1\<close>

text \<open>
  C1. In every reachable state, every existing campaign (its stored id is not 0) is stored
  under its own id and its \<open>totalRaised\<close> is the sum of the amounts of the Donation
  records with that campaign id; and every successful call changes a campaign's
  \<open>totalRaised\<close> by exactly the value of an accepted donation to that campaign, and by
  nothing otherwise.
\<close>

theorem totalRaised_is_sum_of_donations:
  assumes "reachable w"
  shows "(\<forall>c. c_id (campaigns (manager w) c) \<noteq> 0 \<longrightarrow>
            c_id (campaigns (manager w) c) = c \<and>
            c_totalRaised (campaigns (manager w) c) =
              sum_list (map d_amount (filter (\<lambda>d. d_campaignId d = c_id (campaigns (manager w) c))
                                       (allDonations (manager w))))) \<and>
         (\<forall>e call w' c. exec e call w = Inr w' \<longrightarrow>
            c_totalRaised (campaigns (manager w') c) =
              c_totalRaised (campaigns (manager w) c) + donatedTo call c)"
proof -
  have inv: "ledger_inv (manager w)" by (rule reachable_ledger_inv[OF assms])
  have a: "c_id (campaigns (manager w) c) = c \<and>
        c_totalRaised (campaigns (manager w) c) =
              sum_list (map d_amount (filter (\<lambda>d. d_campaignId d = c_id (campaigns (manager w) c))
                                       (allDonations (manager w))))"
    if "c_id (campaigns (manager w) c) \<noteq> 0" for c
  proof -
    from inv that have "c_id (campaigns (manager w) c) = c" unfolding ledger_inv_def by metis
    moreover from inv have "c_totalRaised (campaigns (manager w) c) = raisedFor (manager w) c"
      unfolding ledger_inv_def by simp
    ultimately show ?thesis by (simp add: raisedFor_def)
  qed
  from a exec_totalRaised[OF _ inv] show ?thesis by blast
qed


theorem totalRaised_is_sum_of_donations_witness:
  "reachable donated \<and> c_id (campaigns (manager donated) 1) \<noteq> 0 \<and>
   c_totalRaised (campaigns (manager donated) 1) =
     sum_list (map d_amount (filter (\<lambda>d. d_campaignId d = 1) (allDonations (manager donated)))) \<and>
   c_totalRaised (campaigns (manager donated) 1) = 2 * 10 ^ 16"
proof -
  have i: "c_id (campaigns (manager donated) 1) = 1"
    by (simp add: donated_def eval_defs)
  have v: "c_totalRaised (campaigns (manager donated) 1) = 2 * 10 ^ 16"
    by (simp add: donated_def eval_defs)
  from totalRaised_is_sum_of_donations [OF reachable_donated] i
  have "c_totalRaised (campaigns (manager donated) 1) =
     sum_list (map d_amount (filter (\<lambda>d. d_campaignId d = c_id (campaigns (manager donated) 1))
       (allDonations (manager donated))))"
    by simp
  with i v reachable_donated show ?thesis by simp
qed

subsection \<open>Claim C4\<close>

lemma determineTier_Inr:
  assumes "determineTier e a donor tid n = Inr (t, n1)"
  shows "n1 = n\<lparr>randomNonce := randomNonce n + 1\<rparr>"
    and "t = (if keccak256 e (timestamp e, prevrandao e, donor, tid, randomNonce n + 1) mod 10000 < 500 then Special
      else if a \<ge> 10 ^ 17 then Gold else if a \<ge> 5 * 10 ^ 16 then Silver else Bronze)"
  using assms
  by (auto simp: determineTier_def generateRandom_def Let_def
       SPECIAL_CHANCE_def GOLD_THRESHOLD_eq SILVER_THRESHOLD_eq
       split: if_splits)

lemma mintCertificate_Inr:
  assumes "mintCertificate e donor a cid title h n = Inr (tid, n')"
  shows "\<exists>t. determineTier e a donor (nextTokenId n) (n\<lparr>nextTokenId := nextTokenId n + 1\<rparr>) = Inr (t, n\<lparr>nextTokenId := nextTokenId n + 1, randomNonce := randomNonce n + 1\<rparr>) \<and>
     tid = nextTokenId n \<and> sender e = donationManager n \<and> fits (nextTokenId n + 1) \<and>
     donor \<noteq> 0 \<and> owners n tid = 0 \<and> acceptsToken e donor \<and>
     n' = n\<lparr>nextTokenId := nextTokenId n + 1, randomNonce := randomNonce n + 1,
            owners := (owners n)(tid := donor),
            balances := (balances n)(donor := balances n donor + 1),
            donationDetails := (donationDetails n)(tid :=
               \<lparr>dd_donor = donor, dd_amount = a, dd_campaignId = cid,
                dd_campaignTitle = title, dd_timestamp = timestamp e,
                dd_txHash = h, dd_tier = t\<rparr>),
            donorTokens := (donorTokens n)(donor := donorTokens n donor @ [tid])\<rparr>"
proof -
  from assms have a1: "sender e = donationManager n" and a2: "fits (nextTokenId n + 1)"
    by (auto simp: mintCertificate_def split: if_splits)
  from assms a1 a2 obtain t n2 where
    dt: "determineTier e a donor (nextTokenId n) (n\<lparr>nextTokenId := nextTokenId n + 1\<rparr>) = Inr (t, n2)"
    by (cases "determineTier e a donor (nextTokenId n) (n\<lparr>nextTokenId := nextTokenId n + 1\<rparr>)")
       (auto simp: mintCertificate_def Let_def)
  have n2: "n2 = n\<lparr>nextTokenId := nextTokenId n + 1, randomNonce := randomNonce n + 1\<rparr>"
    using determineTier_Inr(1)[OF dt] by simp
  from assms a1 a2 dt obtain n3 where
    sm: "safeMint e donor (nextTokenId n) n2 = Inr n3"
    by (cases "safeMint e donor (nextTokenId n) n2") (auto simp: mintCertificate_def Let_def)
  from sm n2 have s: "donor \<noteq> 0" "owners n (nextTokenId n) = 0" "acceptsToken e donor"
     "n3 = n2\<lparr>owners := (owners n2)(nextTokenId n := donor), balances := (balances n2)(donor := balances n2 donor + 1)\<rparr>"
    by (auto simp: safeMint_def split: if_splits)
  from assms a1 a2 dt sm have "tid = nextTokenId n"
    and "n' = n3\<lparr>donationDetails := (donationDetails n3)(nextTokenId n :=
                         \<lparr>dd_donor = donor, dd_amount = a, dd_campaignId = cid,
                          dd_campaignTitle = title, dd_timestamp = timestamp e,
                          dd_txHash = h, dd_tier = t\<rparr>),
                      donorTokens := (donorTokens n3)(donor := donorTokens n3 donor @ [nextTokenId n])\<rparr>"
    by (auto simp: mintCertificate_def Let_def)
  with s n2 dt a1 a2 show ?thesis by auto
qed

lemma mint_tier:
  assumes "mintCertificate e donor a cid title h n = Inr (tid, n')"
  shows "dd_tier (donationDetails n' tid) =
     (if keccak256 e (timestamp e, prevrandao e, donor, nextTokenId n, randomNonce n + 1) mod 10000 < 500 then Special
      else if a \<ge> 10 ^ 17 then Gold else if a \<ge> 5 * 10 ^ 16 then Silver else Bronze)"
proof -
  from mintCertificate_Inr[OF assms] obtain t where
    dt: "determineTier e a donor (nextTokenId n) (n\<lparr>nextTokenId := nextTokenId n + 1\<rparr>) = Inr (t, n\<lparr>nextTokenId := nextTokenId n + 1, randomNonce := randomNonce n + 1\<rparr>)"
    and t: "dd_tier (donationDetails n' tid) = t"
    by auto
  from determineTier_Inr(2)[OF dt] t show ?thesis by simp
qed


text \<open>
  C4. For every mint of a certificate with donation amount \<open>a\<close>: the draw is below
  10000; if it is below 500 the stored tier is Special whatever \<open>a\<close> is; otherwise the
  tier is Gold iff \<open>a\<close> is at least 0.1 ether, Silver iff \<open>a\<close> is at least 0.05 and below
  0.1 ether, Bronze iff \<open>a\<close> is below 0.05 ether. So among certificates whose tier is
  not Special the tier is a function of the amount alone, and it is monotone in it.
\<close>

theorem mint_tier_thresholds:
  assumes "mintCertificate e donor a cid title h n = Inr (tid, n')"
  shows "let draw = keccak256 e (timestamp e, prevrandao e, donor, nextTokenId n, randomNonce n + 1) mod 10000;
             tier = dd_tier (donationDetails n' tid)
         in draw < 10000 \<and>
            (draw < 500 \<longrightarrow> tier = Special) \<and>
            (\<not> draw < 500 \<longrightarrow>
               (tier = Gold \<longleftrightarrow> a \<ge> 10 ^ 17) \<and>
               (tier = Silver \<longleftrightarrow> 5 * 10 ^ 16 \<le> a \<and> a < 10 ^ 17) \<and>
               (tier = Bronze \<longleftrightarrow> a < 5 * 10 ^ 16)) \<and>
            (\<forall>e2 donor2 b cid2 title2 h2 n2 tid2 n2'.
               mintCertificate e2 donor2 b cid2 title2 h2 n2 = Inr (tid2, n2') \<longrightarrow>
               tier \<noteq> Special \<longrightarrow> dd_tier (donationDetails n2' tid2) \<noteq> Special \<longrightarrow>
               (a \<le> b \<longrightarrow> tierRank tier \<le> tierRank (dd_tier (donationDetails n2' tid2))) \<and>
               (a = b \<longrightarrow> tier = dd_tier (donationDetails n2' tid2)))"
proof -
  have d: "dd_tier (donationDetails n' tid) =
     (if keccak256 e (timestamp e, prevrandao e, donor, nextTokenId n, randomNonce n + 1) mod 10000 < 500 then Special
      else if a \<ge> 10 ^ 17 then Gold else if a \<ge> 5 * 10 ^ 16 then Silver else Bronze)"
    using mint_tier[OF assms] by simp
  have other: "\<And>e2 donor2 b cid2 title2 h2 n2 tid2 n2'.
      mintCertificate e2 donor2 b cid2 title2 h2 n2 = Inr (tid2, n2') \<Longrightarrow>
      dd_tier (donationDetails n2' tid2) \<noteq> Special \<Longrightarrow>
      dd_tier (donationDetails n2' tid2) = (if b \<ge> 10 ^ 17 then Gold else if b \<ge> 5 * 10 ^ 16 then Silver else Bronze)"
    by (drule mint_tier) (auto split: if_splits)
  show ?thesis
    unfolding Let_def
    apply (intro conjI allI impI)
           apply simp
          apply (simp add: d)
         apply (simp add: d)
        apply (simp add: d)
       apply (simp add: d)
     apply (frule (1) other, simp add: d split: if_splits)
    apply (frule (1) other, simp add: d split: if_splits)
    done
qed


theorem mint_tier_thresholds_witness:
  "\<exists>tid n'. mintCertificate (env0 100 20) 7 (2 * 10 ^ 16) 1 ''Flood relief'' 0
       ((freshNFT 1)\<lparr>donationManager := 100\<rparr>) = Inr (tid, n') \<and>
     dd_tier (donationDetails n' tid) = Bronze \<and>
     \<not> dd_tier (donationDetails n' tid) = Silver \<and>
     \<not> dd_tier (donationDetails n' tid) = Gold"
proof -
  obtain tid n' where m: "mintCertificate (env0 100 20) 7 (2 * 10 ^ 16) 1 ''Flood relief'' 0
       ((freshNFT 1)\<lparr>donationManager := 100\<rparr>) = Inr (tid, n')"
    by (simp add: eval_defs)
  have "keccak256 (env0 100 20) (timestamp (env0 100 20), prevrandao (env0 100 20), 7,
          nextTokenId ((freshNFT 1)\<lparr>donationManager := 100\<rparr>),
          randomNonce ((freshNFT 1)\<lparr>donationManager := 100\<rparr>) + 1) mod 10000 = 5000"
    by (simp add: env0_def)
  with mint_tier_thresholds [OF m] have "dd_tier (donationDetails n' tid) = Bronze"
    by (simp add: Let_def)
  with m show ?thesis by auto
qed

subsection \<open>Claim C3\<close>

lemma reachable_unlocked: "reachable w \<Longrightarrow> \<not> m_locked (manager w)"
  by (drule reachable_ledger_inv) (simp add: ledger_inv_def)





subsection \<open>Claim C6\<close>

text \<open>
  C6, as the code has it. A \<^verbatim>\<open>donate\<close> to an existing campaign whose deadline is strictly
  before the current time fails and changes nothing. The failure is \<open>InvalidInput\<close> when
  the amount is zero, else \<open>CampaignInactive\<close> when the campaign is not active, else
  \<open>DeadlinePassed\<close>: the checks run in that order, after the reentrancy guard, which is
  free in every reachable state.
\<close>

theorem donate_after_deadline_fails:
  assumes "c_id (campaigns (manager w) c) \<noteq> 0"
    and "c_deadline (campaigns (manager w) c) < timestamp e"
  shows "donate e c v w =
           Inl (if m_locked (manager w) then Reentrant
                else if v = 0 then InvalidInput
                else if \<not> c_isActive (campaigns (manager w) c) then CampaignInactive
                else DeadlinePassed) \<and>
         run [(e, Donate c v)] w = w \<and>
         (reachable w \<longrightarrow> \<not> m_locked (manager w))"
proof -
  have f: "donate e c v w =
           Inl (if m_locked (manager w) then Reentrant
                else if v = 0 then InvalidInput
                else if \<not> c_isActive (campaigns (manager w) c) then CampaignInactive
                else DeadlinePassed)"
    using assms by (simp add: donate_def)
  from f reachable_unlocked [of w] show ?thesis by simp
qed

theorem donate_after_deadline_fails_witness:
  "reachable (run deployment world0) \<and> c_id (campaigns (manager (run deployment world0)) 1) \<noteq> 0 \<and>
   c_deadline (campaigns (manager (run deployment world0)) 1) < timestamp (env0 7 2000) \<and>
   c_isActive (campaigns (manager (run deployment world0)) 1) \<and>
   donate (env0 7 2000) 1 (2 * 10 ^ 16) (run deployment world0) = Inl DeadlinePassed"
proof -
  have r: "reachable (run deployment world0)" by (rule reachable_run [OF reachable_world0])
  have t: "c_id (campaigns (manager (run deployment world0)) 1) = 1"
          "c_deadline (campaigns (manager (run deployment world0)) 1) = 1000"
          "c_isActive (campaigns (manager (run deployment world0)) 1)"
    by (simp_all add: eval_defs)
  have a: "c_id (campaigns (manager (run deployment world0)) 1) \<noteq> 0" using t(1) by simp
  have b: "c_deadline (campaigns (manager (run deployment world0)) 1) < timestamp (env0 7 2000)"
    using t(2) by (simp add: env0_def)
  from donate_after_deadline_fails [OF a b, of "2 * 10 ^ 16"] r a b t show ?thesis by simp
qed

theorem donate_after_deadline_counterexample:
  "reachable paused \<and> c_id (campaigns (manager paused) 1) \<noteq> 0 \<and>
   c_deadline (campaigns (manager paused) 1) < timestamp (env0 7 2000) \<and>
   donate (env0 7 2000) 1 (2 * 10 ^ 16) paused = Inl CampaignInactive \<and>
   reachable (run deployment world0) \<and> c_id (campaigns (manager (run deployment world0)) 1) \<noteq> 0 \<and>
   c_deadline (campaigns (manager (run deployment world0)) 1) < timestamp (env0 7 2000) \<and>
   c_isActive (campaigns (manager (run deployment world0)) 1) \<and>
   donate (env0 7 2000) 1 0 (run deployment world0) = Inl InvalidInput \<and>
   CampaignInactive \<noteq> DeadlinePassed \<and> InvalidInput \<noteq> DeadlinePassed"
proof -
  have r: "reachable (run deployment world0)" by (rule reachable_run [OF reachable_world0])
  have p: "reachable paused" unfolding paused_def by (rule reachable_run [OF reachable_world0])
  have t: "c_id (campaigns (manager (run deployment world0)) 1) = 1"
          "c_deadline (campaigns (manager (run deployment world0)) 1) = 1000"
          "c_isActive (campaigns (manager (run deployment world0)) 1)"
          "\<not> m_locked (manager (run deployment world0))"
    by (simp_all add: eval_defs)
  have q: "c_id (campaigns (manager paused) 1) = 1"
          "c_deadline (campaigns (manager paused) 1) = 1000"
          "\<not> c_isActive (campaigns (manager paused) 1)"
          "\<not> m_locked (manager paused)"
    by (simp_all add: paused_def eval_defs)
  show ?thesis using r p t q by (simp add: donate_def env0_def)
qed

subsection \<open>Claim C8\<close>

lemma donate_registries:
  assumes "donate e c v w = Inr w'"
  shows "if v \<ge> MIN_DONATION_FOR_NFT \<and> nftContract (manager w) \<noteq> 0
         then \<exists>n tid n'. registries w (nftContract (manager w)) = Some n \<and>
                mintCertificate (e\<lparr>sender := managerAddr w\<rparr>) (sender e) v c
                  (c_title (campaigns (manager w) c)) (prevhash e) n = Inr (tid, n') \<and>
                registries w' = (registries w)(nftContract (manager w) \<mapsto> n')
         else registries w' = registries w"
  using assms
  by (auto simp: donate_def Let_def recordDonation_simps
           split: if_splits option.splits sum.splits prod.splits)



subsection \<open>Claim C9\<close>

text \<open>
  C9. In every successful \<^verbatim>\<open>withdrawWithLog\<close>, the ledger state on which the recipient's
  code runs during the transfer (the final state, the guard still held) already has the
  Expense record appended and the total spent incremented by the amount.
\<close>

theorem expense_logged_before_transfer:
  assumes "withdrawWithLog e d r a c w = Inr w'"
  shows "let seen = (manager w')\<lparr>m_locked := True\<rparr>
         in seen = (logExpense e d r a c ((manager w)\<lparr>m_locked := True\<rparr>))
                     \<lparr>m_balance := m_balance (manager w) - a\<rparr> \<and>
            transferAccepted e w r a seen \<and>
            acceptsEther e r a seen \<and>
            allExpenses seen = allExpenses (manager w) @
              [\<lparr>e_id = nextExpenseId (manager w), e_description = d, e_amount = a,
                e_recipient = r, e_timestamp = timestamp e, e_txHash = prevhash e,
                e_campaignId = c\<rparr>] \<and>
            totalExpensesLogged seen = totalExpensesLogged (manager w) + a \<and>
            allExpenses (manager w') = allExpenses seen \<and>
            totalExpensesLogged (manager w') = totalExpensesLogged seen"
proof -
  note m' = withdrawWithLog_Inr(8) [OF assms]
  have s: "(manager w')\<lparr>m_locked := True\<rparr> =
      (logExpense e d r a c ((manager w)\<lparr>m_locked := True\<rparr>))\<lparr>m_balance := m_balance (manager w) - a\<rparr>"
    unfolding m' by (simp add: logExpense_def Let_def)
  have t: "transferAccepted e w r a ((manager w')\<lparr>m_locked := True\<rparr>)"
    unfolding s by (rule withdrawWithLog_Inr(7) [OF assms])
  then have o: "acceptsEther e r a ((manager w')\<lparr>m_locked := True\<rparr>)"
    by (simp add: transferAccepted_def receive_def split: if_splits)
  show ?thesis
    unfolding Let_def
    apply (intro conjI)
          apply (rule s)
         apply (rule t)
        apply (rule o)
       apply (simp add: m' logExpense_simps)
      apply (simp add: m' logExpense_simps)
     apply (simp add: m' logExpense_simps)
    apply (simp add: m' logExpense_simps)
    done
qed

theorem expense_logged_before_transfer_witness:
  "\<exists>w'. withdrawWithLog auditingRecipient ''Tents'' 9 5 1 donated = Inr w' \<and>
     acceptsEther auditingRecipient 9 5 ((manager w')\<lparr>m_locked := True\<rparr>) \<and>
     \<not> acceptsEther auditingRecipient 9 5 ((manager donated)\<lparr>m_locked := True\<rparr>) \<and>
     length (allExpenses (manager w')) = 1 \<and> totalExpensesLogged (manager w') = 5"
proof -
  obtain w' where w: "withdrawWithLog auditingRecipient ''Tents'' 9 5 1 donated = Inr w'"
    by (simp add: donated_def auditingRecipient_def eval_defs)
  have n: "allExpenses (manager donated) = []" "totalExpensesLogged (manager donated) = 0"
    by (simp_all add: donated_def eval_defs)
  from expense_logged_before_transfer [OF w] n w show ?thesis
    by (auto simp: Let_def auditingRecipient_def env0_def)
qed

subsection \<open>Claim C5\<close>

declare sortInner.simps [simp del] sortOuter.simps [simp del]

lemma swap_length [simp]: "length (swap i j xs) = length xs"
  by (simp add: swap_def)

lemma swap_nth:
  "i < length xs \<Longrightarrow> j < length xs \<Longrightarrow> k < length xs \<Longrightarrow>
   swap i j xs ! k = (if k = j then xs ! i else if k = i then xs ! j else xs ! k)"
  by (simp add: swap_def nth_list_update)

lemma swap_zip:
  assumes "length ds = length ts" "i < length ts" "j < length ts"
  shows "mset (zip (swap i j ds) (swap i j ts)) = mset (zip ds ts)"
proof -
  have "zip (swap i j ds) (swap i j ts) = (zip ds ts)[i := zip ds ts ! j, j := zip ds ts ! i]"
    using assms by (simp add: swap_def zip_update)
  moreover have "mset ((zip ds ts)[i := zip ds ts ! j, j := zip ds ts ! i]) = mset (zip ds ts)"
    using assms by (intro mset_swap) simp_all
  ultimately show ?thesis by simp
qed

lemma sortInner_unfold:
  "sortInner i j n p = (if j < n then sortInner i (j + 1) n (cmpSwap i j p) else p)"
  by (cases p) (simp add: sortInner.simps cmpSwap_def)

lemma cmpSwap_length:
  "length (fst (cmpSwap i j p)) = length (fst p)" "length (snd (cmpSwap i j p)) = length (snd p)"
  by (simp_all add: cmpSwap_def)

lemma cmpSwap_mset:
  "length (fst p) = length (snd p) \<Longrightarrow> i < length (snd p) \<Longrightarrow> j < length (snd p) \<Longrightarrow>
   mset (zip (fst (cmpSwap i j p)) (snd (cmpSwap i j p))) = mset (zip (fst p) (snd p))"
  by (simp add: cmpSwap_def swap_zip)

lemma cmpSwap_nth:
  "i < length (snd p) \<Longrightarrow> j < length (snd p) \<Longrightarrow> k < length (snd p) \<Longrightarrow>
   snd (cmpSwap i j p) ! k =
     (if snd p ! j > snd p ! i then (if k = j then snd p ! i else if k = i then snd p ! j else snd p ! k)
      else snd p ! k)"
  by (simp add: cmpSwap_def swap_nth)

lemma sortInner_length:
  "length (fst (sortInner i j n p)) = length (fst p) \<and> length (snd (sortInner i j n p)) = length (snd p)"
proof (induction "n - j" arbitrary: j p)
  case 0
  then show ?case by (subst (1 2) sortInner_unfold) simp
next
  case (Suc d)
  then have "n - (j + 1) = d" and "j < n" by arith+
  with Suc.hyps(1) [of "j + 1" "cmpSwap i j p"] show ?case
    by (subst (1 2) sortInner_unfold) (simp add: cmpSwap_length)
qed

lemma sortInner_mset:
  "length (fst p) = n \<Longrightarrow> length (snd p) = n \<Longrightarrow> i < j \<Longrightarrow>
   mset (zip (fst (sortInner i j n p)) (snd (sortInner i j n p))) = mset (zip (fst p) (snd p))"
proof (induction "n - j" arbitrary: j p)
  case 0
  then show ?case by (subst (1 2) sortInner_unfold) simp
next
  case (Suc d)
  then have d: "n - (j + 1) = d" and j: "j < n" by arith+
  have "mset (zip (fst (sortInner i (j + 1) n (cmpSwap i j p))) (snd (sortInner i (j + 1) n (cmpSwap i j p))))
      = mset (zip (fst (cmpSwap i j p)) (snd (cmpSwap i j p)))"
    using Suc.prems d by (intro Suc.hyps(1)) (simp_all add: cmpSwap_length)
  also have "\<dots> = mset (zip (fst p) (snd p))"
    using Suc.prems j by (intro cmpSwap_mset) simp_all
  finally show ?case using j by (subst (1 2) sortInner_unfold) simp
qed

lemma sortInner_prefix:
  "length (snd p) = n \<Longrightarrow> i < j \<Longrightarrow> k < i \<Longrightarrow> snd (sortInner i j n p) ! k = snd p ! k"
proof (induction "n - j" arbitrary: j p)
  case 0
  then show ?case by (subst sortInner_unfold) simp
next
  case (Suc d)
  then have d: "n - (j + 1) = d" and j: "j < n" by arith+
  have "snd (sortInner i (j + 1) n (cmpSwap i j p)) ! k = snd (cmpSwap i j p) ! k"
    using Suc.prems d by (intro Suc.hyps(1)) (simp_all add: cmpSwap_length)
  also have "\<dots> = snd p ! k"
    using Suc.prems j by (simp add: cmpSwap_nth)
  finally show ?case using j by (subst sortInner_unfold) simp
qed

lemma sortInner_from_suffix:
  "length (snd p) = n \<Longrightarrow> i < j \<Longrightarrow> i \<le> k \<Longrightarrow> k < n \<Longrightarrow>
   \<exists>k'. i \<le> k' \<and> k' < n \<and> snd (sortInner i j n p) ! k = snd p ! k'"
proof (induction "n - j" arbitrary: j p k)
  case 0
  then show ?case by (subst sortInner_unfold) auto
next
  case (Suc d)
  then have d: "n - (j + 1) = d" and j: "j < n" by arith+
  have "\<exists>k'. i \<le> k' \<and> k' < n \<and> snd (sortInner i (j + 1) n (cmpSwap i j p)) ! k = snd (cmpSwap i j p) ! k'"
    using Suc.prems d by (intro Suc.hyps(1)) (simp_all add: cmpSwap_length)
  then obtain k' where k': "i \<le> k'" "k' < n"
    "snd (sortInner i (j + 1) n (cmpSwap i j p)) ! k = snd (cmpSwap i j p) ! k'" by blast
  have "snd (cmpSwap i j p) ! k' = snd p ! i \<or> snd (cmpSwap i j p) ! k' = snd p ! j \<or>
        snd (cmpSwap i j p) ! k' = snd p ! k'"
    using Suc.prems j k'(1,2) by (simp add: cmpSwap_nth)
  moreover have "i \<le> i \<and> i < n" "i \<le> j \<and> j < n" "i \<le> k' \<and> k' < n"
    using Suc.prems j k'(1,2) by simp_all
  ultimately have "\<exists>k''. i \<le> k'' \<and> k'' < n \<and> snd (cmpSwap i j p) ! k' = snd p ! k''"
    by blast
  with k'(3) show ?case using j by (subst sortInner_unfold) simp
qed

lemma sortInner_max:
  "length (snd p) = n \<Longrightarrow> i < j \<Longrightarrow> (\<forall>k. i < k \<and> k < j \<longrightarrow> snd p ! k \<le> snd p ! i) \<Longrightarrow>
   i < k \<Longrightarrow> k < n \<Longrightarrow> snd (sortInner i j n p) ! k \<le> snd (sortInner i j n p) ! i"
proof (induction "n - j" arbitrary: j p)
  case 0
  then show ?case by (subst (1 2) sortInner_unfold) auto
next
  case (Suc d)
  then have d: "n - (j + 1) = d" and j: "j < n" by arith+
  have i: "i < n" using Suc.prems j by simp
  have inv: "\<forall>k. i < k \<and> k < j + 1 \<longrightarrow> snd (cmpSwap i j p) ! k \<le> snd (cmpSwap i j p) ! i"
  proof (intro allI impI)
    fix k assume k: "i < k \<and> k < j + 1"
    then have "k < n" using j by simp
    show "snd (cmpSwap i j p) ! k \<le> snd (cmpSwap i j p) ! i"
    proof (cases "k = j")
      case True
      then show ?thesis using Suc.prems(1,2) j i by (simp add: cmpSwap_nth)
    next
      case False
      with k have "k < j" by simp
      with k Suc.prems(3) have "snd p ! k \<le> snd p ! i" by simp
      then show ?thesis using Suc.prems(1,2) j i \<open>k < n\<close> False k by (simp add: cmpSwap_nth)
    qed
  qed
  have "snd (sortInner i (j + 1) n (cmpSwap i j p)) ! k \<le> snd (sortInner i (j + 1) n (cmpSwap i j p)) ! i"
    using Suc.prems d inv by (intro Suc.hyps(1)) (simp_all add: cmpSwap_length)
  then show ?case using j by (subst (1 2) sortInner_unfold) simp
qed

text \<open>The outer loop: positions before \<open>i\<close> dominate everything after them.\<close>

lemma sortOuter_props:
  "length (fst p) = n \<Longrightarrow> length (snd p) = n \<Longrightarrow>
   (\<forall>a b. a < i \<and> a < b \<and> b < n \<longrightarrow> snd p ! b \<le> snd p ! a) \<Longrightarrow>
   length (fst (sortOuter i n p)) = n \<and> length (snd (sortOuter i n p)) = n \<and>
   mset (zip (fst (sortOuter i n p)) (snd (sortOuter i n p))) = mset (zip (fst p) (snd p)) \<and>
   (\<forall>a b. a < b \<and> b < n \<longrightarrow> snd (sortOuter i n p) ! b \<le> snd (sortOuter i n p) ! a)"
proof (induction "n - i" arbitrary: i p)
  case 0
  then show ?case by (subst (1 2 3 4 5 6) sortOuter.simps) auto
next
  case (Suc d)
  then have d: "n - (i + 1) = d" and i: "i < n" by arith+
  let ?q = "sortInner i (i + 1) n p"
  have len: "length (fst ?q) = n" "length (snd ?q) = n"
    using sortInner_length [of i "i + 1" n p] Suc.prems by simp_all
  have ms: "mset (zip (fst ?q) (snd ?q)) = mset (zip (fst p) (snd p))"
    using Suc.prems by (intro sortInner_mset) simp_all
  have dom: "\<forall>a b. a < i + 1 \<and> a < b \<and> b < n \<longrightarrow> snd ?q ! b \<le> snd ?q ! a"
  proof (intro allI impI)
    fix a b assume ab: "a < i + 1 \<and> a < b \<and> b < n"
    show "snd ?q ! b \<le> snd ?q ! a"
    proof (cases "a = i")
      case True
      with ab show ?thesis using Suc.prems(2) by (auto intro!: sortInner_max)
    next
      case False
      with ab have a: "a < i" by simp
      then have qa: "snd ?q ! a = snd p ! a" using Suc.prems(2) by (intro sortInner_prefix) simp_all
      show ?thesis
      proof (cases "b < i")
        case True
        then have "snd ?q ! b = snd p ! b" using Suc.prems(2) by (intro sortInner_prefix) simp_all
        with qa ab a Suc.prems(3) show ?thesis by simp
      next
        case False
        then have "\<exists>k'. i \<le> k' \<and> k' < n \<and> snd ?q ! b = snd p ! k'"
          using Suc.prems(2) ab by (intro sortInner_from_suffix) simp_all
        then obtain k' where "i \<le> k'" "k' < n" "snd ?q ! b = snd p ! k'" by blast
        with qa a Suc.prems(3) show ?thesis by simp
      qed
    qed
  qed
  from Suc.hyps(1) [of "i + 1" ?q, OF d [symmetric] len dom] ms i
  show ?case by (subst (1 2 3 4 5 6) sortOuter.simps) simp
qed

lemma getLeaderboard_sorted:
  "\<exists>ps. mset ps = mset (map (\<lambda>d. (d, donorTotalAmount m d)) (uniqueDonors m)) \<and>
        sorted_wrt (\<lambda>a b. snd a \<ge> snd b) ps \<and>
        getLeaderboard cnt m =
          (map fst (take (min cnt (length (uniqueDonors m))) ps),
           map snd (take (min cnt (length (uniqueDonors m))) ps))"
proof -
  let ?n = "length (uniqueDonors m)"
  let ?p = "(uniqueDonors m, map (donorTotalAmount m) (uniqueDonors m))"
  let ?q = "sortOuter 0 ?n ?p"
  let ?ps = "zip (fst ?q) (snd ?q)"
  have pr: "length (fst ?q) = ?n \<and> length (snd ?q) = ?n \<and>
        mset ?ps = mset (zip (fst ?p) (snd ?p)) \<and>
        (\<forall>a b. a < b \<and> b < ?n \<longrightarrow> snd ?q ! b \<le> snd ?q ! a)"
    by (rule sortOuter_props) simp_all
  have z: "zip (fst ?p) (snd ?p) = map (\<lambda>d. (d, donorTotalAmount m d)) (uniqueDonors m)"
    by (simp add: zip_map2 zip_same_conv_map)
  have s: "sorted_wrt (\<lambda>a b. snd a \<ge> snd b) ?ps"
    using pr by (simp add: sorted_wrt_iff_nth_less)
  have c: "(if cnt > ?n then ?n else cnt) = min cnt ?n" by simp
  have g: "getLeaderboard cnt m = (map fst (take (min cnt ?n) ?ps), map snd (take (min cnt ?n) ?ps))"
    using pr unfolding getLeaderboard_def Let_def c
    by (simp add: take_map [symmetric] take_zip [symmetric])
  from pr z s g show ?thesis by (intro exI [of _ ?ps]) simp
qed

lemma tied_eval: "uniqueDonors (manager tied) = [7, 8, 9]"
  "donorTotalAmount (manager tied) 7 = 1"
  "donorTotalAmount (manager tied) 8 = 1"
  "donorTotalAmount (manager tied) 9 = 2"
  by (simp_all add: tied_def eval_defs)

lemma spec_tied: "leaderboard_spec 3 (manager tied) = ([9, 7, 8], [2, 1, 1])"
  by (simp add: leaderboard_spec_def Let_def tied_eval)

lemma sort_tied: "sortOuter 0 3 ([7, 8, 9], [1, 1, 2]) = ([9, 8, 7], [2, 1, 1])"
  by (simp add: sortOuter.simps sortInner.simps swap_def)

lemma leaderboard_tied: "getLeaderboard 3 (manager tied) = ([9, 8, 7], [2, 1, 1])"
proof -
  have t: "map (donorTotalAmount (manager tied)) [7, 8, 9] = [1, 1, 2]"
    by (simp add: tied_eval)
  have n: "length [7, 8, 9 :: nat] = 3" by simp
  show ?thesis
    unfolding getLeaderboard_def Let_def tied_eval(1) t n sort_tied by simp
qed

lemma recordDonation_donors:
  "uniqueDonors (recordDonation e c v m) =
     (if hasDonated m (sender e) then uniqueDonors m else uniqueDonors m @ [sender e])"
  "hasDonated (recordDonation e c v m) a \<longleftrightarrow> hasDonated m a \<or> a = sender e"
  by (auto simp add: recordDonation_def Let_def)

lemma markMinted_hasDonated: "hasDonated (markMinted m) = hasDonated m"
  by (simp add: markMinted_def Let_def)

lemma donate_donors:
  assumes "donate e c v w = Inr w'"
  shows "uniqueDonors (manager w') =
     (if hasDonated (manager w) (sender e) then uniqueDonors (manager w)
      else uniqueDonors (manager w) @ [sender e])"
    and "hasDonated (manager w') a \<longleftrightarrow> hasDonated (manager w) a \<or> a = sender e"
    and "donorTotalAmount (manager w') = (donorTotalAmount (manager w))(sender e :=
       donorTotalAmount (manager w) (sender e) + v)"
  using donate_Inr(6) [OF assms]
  by (simp_all add: recordDonation_simps recordDonation_donors markMinted_simps markMinted_hasDonated)

lemma donate_donors_inv:
  assumes d: "donate e c v w = Inr w'" and inv: "donors_inv (manager w)"
  shows "donors_inv (manager w')"
proof -
  note f = donate_donors [OF d] and a = donate_allDonations [OF d]
  have db: "\<And>x. donatedBy (manager w') x = donatedBy (manager w) x + (if sender e = x then v else 0)"
    by (simp add: donatedBy_def a)
  from inv show ?thesis
    unfolding donors_inv_def
    by (auto simp add: f a db)
qed

lemma donors_inv_same:
  "donors_inv m \<Longrightarrow> uniqueDonors m' = uniqueDonors m \<Longrightarrow> allDonations m' = allDonations m \<Longrightarrow>
   hasDonated m' = hasDonated m \<Longrightarrow> donorTotalAmount m' = donorTotalAmount m \<Longrightarrow> donors_inv m'"
  by (simp add: donors_inv_def donatedBy_def)

lemma exec_donors_inv:
  assumes ex: "exec e c w = Inr w'" and inv: "donors_inv (manager w)"
  shows "donors_inv (manager w')"
proof (cases c)
  case (SetNFTContract a)
  with ex inv show ?thesis
    by (auto dest!: onManager_Inr simp: setNFTContract_def split: if_splits elim!: donors_inv_same)
next
  case (CreateCampaign t d i g dl)
  with ex inv show ?thesis
    by (auto dest!: onManager_Inr simp: createCampaign_def Let_def
        split: sum.splits prod.splits if_splits elim!: donors_inv_same)
next
  case (UpdateCampaignStatus j b)
  with ex inv show ?thesis
    by (auto dest!: onManager_Inr simp: updateCampaignStatus_def split: if_splits elim!: donors_inv_same)
next
  case (WithdrawWithLog d r a j)
  with ex inv show ?thesis
    by (auto dest!: withdrawWithLog_Inr(8) simp: logExpense_def Let_def elim!: donors_inv_same)
next
  case (Donate j v)
  with ex inv show ?thesis by (auto intro: donate_donors_inv)
next
  case (ManagerTransferOwnership a)
  with ex inv show ?thesis
    by (auto dest!: onManager_Inr simp: M_transferOwnership_def split: if_splits elim!: donors_inv_same)
next
  case (ForcedEther v)
  with ex inv show ?thesis by (auto elim!: donors_inv_same)
qed (use ex inv in \<open>auto dest: onRegistry_manager onVoting_manager deployNFT_manager\<close>)

lemma reachable_donors_inv: "reachable w \<Longrightarrow> donors_inv (manager w)"
  unfolding reachable_def
proof (induction rule: reachable_by.induct)
  case (init initialOwner m e nft v a)
  then show ?case
    by (auto simp: DonationManager_constructor_def freshManager_def donors_inv_def donatedBy_def
        split: if_splits)
next
  case (step w c e w')
  then show ?case by (auto intro: exec_donors_inv)
qed

lemma reachable_tied: "reachable tied"
  unfolding tied_def by (rule reachable_run [OF reachable_world0])

text \<open>
  What the loop does guarantee. For every state and every \<open>cnt\<close>, \<^verbatim>\<open>getLeaderboard\<close>
  returns the first \<open>min cnt (number of unique donors)\<close> entries of a rearrangement of the
  unique donors, each paired with its \<^verbatim>\<open>donorTotalAmount\<close>, in descending order of the
  totals. In a reachable state the unique donors are distinct, they are exactly the donors
  of the Donation records, and each total is the sum of that donor's donations.
\<close>

lemma getLeaderboard_descending:
  "let m = manager w; k = min cnt (length (uniqueDonors m)) in
     (\<exists>ps. mset ps = mset (map (\<lambda>a. (a, donorTotalAmount m a)) (uniqueDonors m)) \<and>
        sorted_wrt (\<lambda>p q. snd p \<ge> snd q) ps \<and>
        getLeaderboard cnt m = (map fst (take k ps), map snd (take k ps))) \<and>
     (reachable w \<longrightarrow>
        distinct (uniqueDonors m) \<and>
        set (uniqueDonors m) = d_donor ` set (allDonations m) \<and>
        (\<forall>a. donorTotalAmount m a =
           sum_list (map d_amount (filter (\<lambda>d. d_donor d = a) (allDonations m)))))"
proof -
  have "reachable w \<Longrightarrow> distinct (uniqueDonors (manager w)) \<and>
        set (uniqueDonors (manager w)) = d_donor ` set (allDonations (manager w)) \<and>
        (\<forall>a. donorTotalAmount (manager w) a =
           sum_list (map d_amount (filter (\<lambda>d. d_donor d = a) (allDonations (manager w)))))"
    by (drule reachable_donors_inv) (simp add: donors_inv_def donatedBy_def)
  with getLeaderboard_sorted [of "manager w" cnt] show ?thesis
    unfolding Let_def by blast
qed

lemma getLeaderboard_descending_tied:
  "reachable tied \<and> distinct (uniqueDonors (manager tied)) \<and>
   (\<exists>ps. mset ps = {#(7, 1), (8, 1), (9, 2)#} \<and>
      sorted_wrt (\<lambda>p q. snd p \<ge> snd q) ps \<and>
      getLeaderboard 2 (manager tied) = (map fst (take 2 ps), map snd (take 2 ps)))"
proof -
  have k: "min 2 (length (uniqueDonors (manager tied))) = 2"
    by (simp add: tied_eval)
  have ms: "mset (map (\<lambda>a. (a, donorTotalAmount (manager tied) a)) (uniqueDonors (manager tied)))
      = {#(7, 1), (8, 1), (9, 2)#}"
    by (simp add: tied_eval)
  from getLeaderboard_descending [where w = tied and cnt = 2] reachable_tied
  show ?thesis unfolding Let_def k ms by blast
qed

lemma bubbleSort_tied:
  "bubbleSort [(7, 1), (8, 1), (9, 2)] = [(9, 2), (7, 1), (8, 1)]"
  by (simp add: bubbleSort_def numeral_3_eq_3)

text \<open>
  C5 fails on the code. Donors 7, 8 and 9 make their first donations in that order and
  give 1, 1 and 2 wei. Ordered by total descending with ties in insertion order the
  leaderboard is 9, 7, 8: that is what the spec's wording gives, and what the bubble sort
  named by the comment above the loop gives. \<^verbatim>\<open>getLeaderboard(3)\<close> returns 9, 8, 7: the
  loop exchanges position 0 (donor 7) with position 2 (donor 9) across donor 8, which
  puts donor 7 behind donor 8 though both gave 1 wei and 7 gave first.
\<close>

theorem getLeaderboard_reverses_ties:
  "uniqueDonors (manager tied) = [7, 8, 9] \<and>
   map (donorTotalAmount (manager tied)) [7, 8, 9] = [1, 1, 2] \<and>
   getLeaderboard 3 (manager tied) = ([9, 8, 7], [2, 1, 1]) \<and>
   leaderboard_spec 3 (manager tied) = ([9, 7, 8], [2, 1, 1]) \<and>
   map fst (bubbleSort (map (\<lambda>a. (a, donorTotalAmount (manager tied) a))
                          (uniqueDonors (manager tied)))) = [9, 7, 8] \<and>
   getLeaderboard 3 (manager tied) \<noteq> leaderboard_spec 3 (manager tied)"
  using leaderboard_tied spec_tied bubbleSort_tied by (simp add: tied_eval)

subsection \<open>Certificate registries and the ballot registry in reachable states\<close>

lemma evolves_refl: "evolves n n"
  by (simp add: evolves_def)

lemma mintCertificate_registry:
  assumes "mintCertificate e donor a cid title h n = Inr (tid, n')" and "registry_inv n"
  shows "registry_inv n'" and "evolves n n'"
    and "nextTokenId n' = nextTokenId n + 1"
proof -
  from mintCertificate_Inr [OF assms(1)] obtain t where
    f: "fits (nextTokenId n + 1)" and d: "donor \<noteq> 0" and tid: "tid = nextTokenId n"
    and n': "n' = n\<lparr>nextTokenId := nextTokenId n + 1, randomNonce := randomNonce n + 1,
            owners := (owners n)(tid := donor),
            balances := (balances n)(donor := balances n donor + 1),
            donationDetails := (donationDetails n)(tid :=
               \<lparr>dd_donor = donor, dd_amount = a, dd_campaignId = cid,
                dd_campaignTitle = title, dd_timestamp = timestamp e,
                dd_txHash = h, dd_tier = t\<rparr>),
            donorTokens := (donorTokens n)(donor := donorTokens n donor @ [tid])\<rparr>"
    by auto
  show "registry_inv n'"
    using assms(2) f unfolding registry_inv_def n' tid
    by (auto simp: less_Suc_eq)
  show "evolves n n'" unfolding evolves_def n' tid by simp
  show "nextTokenId n' = nextTokenId n + 1" unfolding n' by simp
qed

lemma setDonationManager_registry:
  assumes "setDonationManager e a n = Inr n'" and "registry_inv n"
  shows "registry_inv n' \<and> evolves n n'"
  using assms by (auto simp: setDonationManager_def registry_inv_def evolves_def split: if_splits)

lemma transferFrom_registry:
  assumes "transferFrom e from to t n = Inr n'" and "registry_inv n"
  shows "registry_inv n' \<and> evolves n n'"
  using assms
  by (auto simp: transferFrom_def registry_inv_def evolves_def Let_def split: if_splits)

lemma N_transferOwnership_registry:
  assumes "N_transferOwnership e a n = Inr n'" and "registry_inv n"
  shows "registry_inv n' \<and> evolves n n'"
  using assms by (auto simp: N_transferOwnership_def registry_inv_def evolves_def split: if_splits)

lemma freshNFT_registry: "registry_inv (freshNFT a)"
  by (simp add: registry_inv_def freshNFT_def fits_small)

lemma registries_step_same:
  "registries_inv w \<Longrightarrow> registries w' = registries w \<Longrightarrow> registries_step w w'"
  by (auto simp: registries_step_def registries_inv_def evolves_refl split: option.splits)

lemma onRegistry_step:
  assumes "onRegistry r f w = Inr w'" and "registries_inv w"
    and "\<And>n n'. f n = Inr n' \<Longrightarrow> registry_inv n \<Longrightarrow> registry_inv n' \<and> evolves n n'"
  shows "registries_step w w'"
proof -
  from assms(1) obtain n n' where n: "registries w r = Some n" and f: "f n = Inr n'"
    and w': "registries w' = (registries w)(r \<mapsto> n')"
    by (auto simp: onRegistry_def split: option.splits sum.splits)
  from assms(2) n have "registry_inv n" by (simp add: registries_inv_def)
  from assms(3) [OF f this] n w' assms(2) show ?thesis
    by (auto simp: registries_step_def registries_inv_def evolves_refl split: option.splits)
qed

lemma onManager_registries: "onManager f w = Inr w' \<Longrightarrow> registries w' = registries w"
  by (auto simp: onManager_def split: sum.splits)

lemma onVoting_registries: "onVoting f w = Inr w' \<Longrightarrow> registries w' = registries w"
  by (auto simp: onVoting_def split: sum.splits)

lemma deployNFT_step:
  assumes "deployNFT a i w = Inr w'" and "registries_inv w"
  shows "registries_step w w'"
  using assms
  by (auto simp: deployNFT_def DonachainNFT_constructor_def registries_step_def registries_inv_def
      evolves_refl split: if_splits option.splits)

lemma donate_step:
  assumes d: "donate e c v w = Inr w'" and inv: "registries_inv w"
  shows "registries_step w w'"
proof (cases "v \<ge> MIN_DONATION_FOR_NFT \<and> nftContract (manager w) \<noteq> 0")
  case False
  with donate_registries [OF d] have "registries w' = registries w" by (simp split: if_splits)
  with inv show ?thesis by (rule registries_step_same)
next
  case True
  with donate_registries [OF d] obtain n tid n' where
    n: "registries w (nftContract (manager w)) = Some n"
    and m: "mintCertificate (e\<lparr>sender := managerAddr w\<rparr>) (sender e) v c
                  (c_title (campaigns (manager w) c)) (prevhash e) n = Inr (tid, n')"
    and r: "registries w' = (registries w)(nftContract (manager w) \<mapsto> n')"
    by (auto split: if_splits)
  from inv n have "registry_inv n" by (simp add: registries_inv_def)
  from mintCertificate_registry(1,2) [OF m this] n r inv show ?thesis
    by (auto simp: registries_step_def registries_inv_def evolves_refl split: option.splits)
qed

lemma exec_registries_step:
  assumes ex: "exec e c w = Inr w'" and inv: "registries_inv w"
  shows "registries_step w w'"
proof (cases c)
  case (WithdrawWithLog d r a k)
  with ex inv show ?thesis by (auto dest: withdrawWithLog_Inr(10) intro: registries_step_same)
next
  case (Donate k v)
  with ex inv show ?thesis by (auto intro: donate_step)
next
  case (DeployNFT a i)
  with ex inv show ?thesis by (auto intro: deployNFT_step)
next
  case (SetDonationManager r a)
  with ex inv show ?thesis
    by (auto elim!: onRegistry_step dest: setDonationManager_registry)
next
  case (MintCertificate r donor amount k t h)
  with ex inv show ?thesis
    by (auto elim!: onRegistry_step split: sum.splits prod.splits
        dest: mintCertificate_registry(1,2))
next
  case (TransferFrom r x y t)
  with ex inv show ?thesis
    by (auto elim!: onRegistry_step dest: transferFrom_registry)
next
  case (NFTTransferOwnership r a)
  with ex inv show ?thesis
    by (auto elim!: onRegistry_step dest: N_transferOwnership_registry)
qed (use ex inv in \<open>auto dest: onManager_registries onVoting_registries intro: registries_step_same\<close>)

lemma registries_step_inv:
  "registries_step w w' \<Longrightarrow> registries_inv w'"
  unfolding registries_step_def registries_inv_def
proof (intro allI impI)
  fix a n'
  assume s: "\<forall>a. case registries w a of
            Some n \<Rightarrow> (\<exists>n'. registries w' a = Some n' \<and> registry_inv n' \<and> evolves n n')
          | None \<Rightarrow> registries w' a = None \<or> (\<exists>i. registries w' a = Some (freshNFT i))"
    and r: "registries w' a = Some n'"
  from s [rule_format, of a] r show "registry_inv n'"
    by (cases "registries w a") (auto simp: freshNFT_registry)
qed

lemma reachable_by_registries_inv: "reachable_by P w \<Longrightarrow> registries_inv w"
proof (induction rule: reachable_by.induct)
  case (init initialOwner m e nft v a)
  then show ?case by (simp add: registries_inv_def)
next
  case (step w c e w')
  then show ?case by (blast intro: registries_step_inv exec_registries_step)
qed

lemma vote_Inr:
  assumes "vote e c t regs v = Inr v'"
  shows "\<not> v_locked v"
    and "\<exists>n. regs (v_nftContract v) = Some n \<and> ownerOf n t = Inr (sender e) \<and>
             owners n t \<noteq> 0 \<and> dd_campaignId (donationDetails n t) = c"
    and "\<not> tokenUsed v t" and "fits (campaignVotes v c + 1)"
    and "v' = v\<lparr>tokenUsed := (tokenUsed v)(t := True),
                campaignVotes := (campaignVotes v)(c := campaignVotes v c + 1),
                v_locked := False\<rparr>"
proof -
  from assms show l: "\<not> v_locked v" by (auto simp: vote_def split: if_splits)
  from assms l obtain n where n: "regs (v_nftContract v) = Some n"
    by (cases "regs (v_nftContract v)") (auto simp: vote_def)
  from assms l n have o: "owners n t \<noteq> 0"
    by (auto simp: vote_def ownerOf_def split: if_splits)
  from assms l n o have r: "owners n t = sender e" "dd_campaignId (donationDetails n t) = c"
    by (auto simp: vote_def ownerOf_def split: if_splits)
  from n o r show "\<exists>n. regs (v_nftContract v) = Some n \<and> ownerOf n t = Inr (sender e) \<and>
             owners n t \<noteq> 0 \<and> dd_campaignId (donationDetails n t) = c"
    by (auto simp: ownerOf_def)
  from assms l n o show "\<not> tokenUsed v t" "fits (campaignVotes v c + 1)"
    "v' = v\<lparr>tokenUsed := (tokenUsed v)(t := True),
                campaignVotes := (campaignVotes v)(c := campaignVotes v c + 1),
                v_locked := False\<rparr>"
    by (auto simp: vote_def ownerOf_def split: if_splits)
qed

lemma vote_succeeds:
  assumes "\<not> v_locked v" and "regs (v_nftContract v) = Some n" and "ownerOf n t = Inr (sender e)"
    and "\<not> tokenUsed v t" and "dd_campaignId (donationDetails n t) = c"
    and "fits (campaignVotes v c + 1)"
  shows "vote e c t regs v = Inr (v\<lparr>tokenUsed := (tokenUsed v)(t := True),
                campaignVotes := (campaignVotes v)(c := campaignVotes v c + 1),
                v_locked := False\<rparr>)"
  using assms by (simp add: vote_def)

lemma onVoting_Inr: "onVoting f w = Inr w' \<Longrightarrow> \<exists>v'. f (voting w) = Inr v' \<and> w' = w\<lparr>voting := v'\<rparr>"
  by (auto simp: onVoting_def split: sum.splits)

lemma onManager_voting: "onManager f w = Inr w' \<Longrightarrow> voting w' = voting w"
  by (auto simp: onManager_def split: sum.splits)

lemma onRegistry_voting: "onRegistry r f w = Inr w' \<Longrightarrow> voting w' = voting w"
  by (auto simp: onRegistry_def split: option.splits sum.splits)

lemma deployNFT_voting: "deployNFT a i w = Inr w' \<Longrightarrow> voting w' = voting w"
  by (auto simp: deployNFT_def split: if_splits sum.splits)

text \<open>What a successful call can do to the ballot registry.\<close>

lemma exec_voting:
  assumes "exec e c w = Inr w'"
  shows "(\<exists>k t. c = Vote k t \<and> vote e k t (registries w) (voting w) = Inr (voting w')) \<or>
         (\<exists>a. c = VotingSetNFTContract a \<and> voting w' = (voting w)\<lparr>v_nftContract := a\<rparr>) \<or>
         (\<exists>a. voting w' = (voting w)\<lparr>v_owner := a\<rparr>) \<or>
         voting w' = voting w"
proof (cases c)
  case (VotingSetNFTContract a)
  with assms show ?thesis
    by (auto dest!: onVoting_Inr simp: V_setNFTContract_def split: if_splits)
next
  case (VotingTransferOwnership a)
  with assms show ?thesis
    by (auto dest!: onVoting_Inr simp: V_transferOwnership_def split: if_splits)
next
  case (Vote k t)
  with assms show ?thesis by (auto dest!: onVoting_Inr)
qed (use assms in \<open>auto dest: onManager_voting onRegistry_voting deployNFT_voting
       withdrawWithLog_Inr(9) donate_Inr(7)\<close>)

lemma tally_used_finite: "tally_inv v \<Longrightarrow> finite {t. tokenUsed v t}"
proof -
  assume "tally_inv v"
  then have "{t. tokenUsed v t} \<subseteq> {1..<MAX_UINT256}" by (auto simp: tally_inv_def)
  then show ?thesis by (rule finite_subset) simp
qed

lemma tally_bound:
  assumes "tally_inv v"
  shows "campaignVotes v c < MAX_UINT256"
proof -
  from assms obtain f where f: "\<And>k. campaignVotes v k = card {t. tokenUsed v t \<and> f t = k}"
    unfolding tally_inv_def by blast
  from assms have sub: "{t. tokenUsed v t \<and> f t = c} \<subseteq> {1..<MAX_UINT256}"
    by (auto simp: tally_inv_def)
  have "card {t. tokenUsed v t \<and> f t = c} \<le> card {1..<MAX_UINT256}"
    by (rule card_mono [OF _ sub]) simp
  also have "\<dots> < MAX_UINT256" by (simp add: MAX_UINT256_def)
  finally show ?thesis by (simp add: f)
qed

lemma vote_tally_inv:
  assumes v: "vote e c t regs v = Inr v'" and inv: "tally_inv v"
    and reg: "\<forall>n. regs (v_nftContract v) = Some n \<longrightarrow> registry_inv n"
  shows "tally_inv v'"
proof -
  note v' = vote_Inr(5) [OF v]
  from vote_Inr(2) [OF v] reg obtain n where o: "owners n t \<noteq> 0" and ri: "registry_inv n" by blast
  from ri o have "1 \<le> t \<and> t < nextTokenId n" unfolding registry_inv_def by blast
  moreover from ri have "nextTokenId n \<le> MAX_UINT256" unfolding registry_inv_def fits_def by blast
  ultimately have t: "1 \<le> t" "t < MAX_UINT256" by simp_all
  have unused: "\<not> tokenUsed v t" by (rule vote_Inr(3) [OF v])
  from inv obtain f where f: "\<And>k. campaignVotes v k = card {x. tokenUsed v x \<and> f x = k}"
    unfolding tally_inv_def by blast
  have fin: "\<And>k. finite {x. tokenUsed v x \<and> f x = k}"
    by (rule finite_subset [OF _ tally_used_finite [OF inv]]) auto
  let ?f = "f(t := c)"
  have "campaignVotes v' k = card {x. tokenUsed v' x \<and> ?f x = k}" for k
  proof (cases "k = c")
    case True
    have "{x. tokenUsed v' x \<and> ?f x = k} = insert t {x. tokenUsed v x \<and> f x = k}"
      using True by (auto simp: v')
    moreover have "t \<notin> {x. tokenUsed v x \<and> f x = k}" using unused by simp
    ultimately show ?thesis using True fin [of k] by (simp add: v' f)
  next
    case False
    have "{x. tokenUsed v' x \<and> ?f x = k} = {x. tokenUsed v x \<and> f x = k}"
      using False unused by (auto simp: v')
    then show ?thesis using False by (simp add: v' f)
  qed
  then have "\<exists>g. \<forall>k. campaignVotes v' k = card {x. tokenUsed v' x \<and> g x = k}" by blast
  moreover have "\<forall>x. tokenUsed v' x \<longrightarrow> 1 \<le> x \<and> x < MAX_UINT256"
    using inv t by (auto simp: v' tally_inv_def)
  moreover have "\<not> v_locked v'" by (simp add: v')
  ultimately show ?thesis unfolding tally_inv_def by blast
qed

lemma exec_tally_inv:
  assumes ex: "exec e c w = Inr w'" and inv: "tally_inv (voting w)" and reg: "registries_inv w"
  shows "tally_inv (voting w')"
  using exec_voting [OF ex]
proof (elim disjE exE conjE)
  fix k t assume "vote e k t (registries w) (voting w) = Inr (voting w')"
  from vote_tally_inv [OF this inv] reg show ?thesis by (simp add: registries_inv_def)
next
  fix a assume "voting w' = (voting w)\<lparr>v_nftContract := a\<rparr>"
  with inv show ?thesis by (simp add: tally_inv_def)
next
  fix a assume "voting w' = (voting w)\<lparr>v_owner := a\<rparr>"
  with inv show ?thesis by (simp add: tally_inv_def)
next
  assume "voting w' = voting w"
  with inv show ?thesis by simp
qed

lemma reachable_tally_inv: "reachable w \<Longrightarrow> tally_inv (voting w)"
  unfolding reachable_def
proof (induction rule: reachable_by.induct)
  case (init initialOwner m e nft v a)
  then show ?case
    by (auto simp: Voting_constructor_def freshVoting_def tally_inv_def split: if_splits)
next
  case (step w c e w')
  then show ?case by (blast intro: exec_tally_inv reachable_by_registries_inv)
qed

lemma reachable_vote_fits: "reachable w \<Longrightarrow> fits (campaignVotes (voting w) c + 1)"
  using tally_bound [OF reachable_tally_inv, of w c] by (simp add: fits_def)

subsection \<open>Counting used certificates\<close>

lemma usedCertificates_card:
  "usedCertificates n v c =
     card {t. tokenUsed v t \<and> dd_campaignId (donationDetails n t) = c \<and> 1 \<le> t \<and> t < nextTokenId n}"
proof -
  have "{x. tokenUsed v x \<and> dd_campaignId (donationDetails n x) = c} \<inter> set [1..<nextTokenId n]
      = {t. tokenUsed v t \<and> dd_campaignId (donationDetails n t) = c \<and> 1 \<le> t \<and> t < nextTokenId n}"
    by auto
  then show ?thesis by (simp add: usedCertificates_def distinct_length_filter)
qed

lemma usedCertificates_evolves:
  assumes "evolves n n'" and "\<forall>t. tokenUsed v t \<longrightarrow> t < nextTokenId n"
  shows "usedCertificates n' v c = usedCertificates n v c"
proof -
  have "{t. tokenUsed v t \<and> dd_campaignId (donationDetails n' t) = c \<and> 1 \<le> t \<and> t < nextTokenId n'}
      = {t. tokenUsed v t \<and> dd_campaignId (donationDetails n t) = c \<and> 1 \<le> t \<and> t < nextTokenId n}"
    using assms by (auto simp: evolves_def)
  then show ?thesis by (simp add: usedCertificates_card)
qed

lemma usedCertificates_vote:
  assumes "1 \<le> t" and "t < nextTokenId n" and "\<not> tokenUsed v t"
    and "tokenUsed v' = (tokenUsed v)(t := True)"
  shows "usedCertificates n v' c =
         usedCertificates n v c + (if dd_campaignId (donationDetails n t) = c then 1 else 0)"
proof (cases "dd_campaignId (donationDetails n t) = c")
  case True
  let ?S = "{x. tokenUsed v x \<and> dd_campaignId (donationDetails n x) = c \<and> 1 \<le> x \<and> x < nextTokenId n}"
  have "{x. tokenUsed v' x \<and> dd_campaignId (donationDetails n x) = c \<and> 1 \<le> x \<and> x < nextTokenId n}
      = insert t ?S"
    using True assms by auto
  moreover have "t \<notin> ?S" using assms(3) by simp
  moreover have "finite ?S" by simp
  ultimately show ?thesis using True by (simp add: usedCertificates_card)
next
  case False
  have "{x. tokenUsed v' x \<and> dd_campaignId (donationDetails n x) = c \<and> 1 \<le> x \<and> x < nextTokenId n}
      = {x. tokenUsed v x \<and> dd_campaignId (donationDetails n x) = c \<and> 1 \<le> x \<and> x < nextTokenId n}"
    using False assms by auto
  then show ?thesis using False by (simp add: usedCertificates_card)
qed

lemma usedCertificates_none: "\<forall>t. \<not> tokenUsed v t \<Longrightarrow> usedCertificates n v c = 0"
  by (simp add: usedCertificates_def)

lemma usedCertificates_cong:
  "tokenUsed v' = tokenUsed v \<Longrightarrow> usedCertificates n v' c = usedCertificates n v c"
  by (simp add: usedCertificates_def)

lemma registries_step_NoneD:
  "registries_step w w' \<Longrightarrow> registries w a = None \<Longrightarrow>
   registries w' a = None \<or> (\<exists>i. registries w' a = Some (freshNFT i))"
  unfolding registries_step_def by (drule spec [of _ a]) simp

lemma registries_step_SomeD:
  "registries_step w w' \<Longrightarrow> registries w a = Some n \<Longrightarrow>
   \<exists>n'. registries w' a = Some n' \<and> registry_inv n' \<and> evolves n n'"
  unfolding registries_step_def by (drule spec [of _ a]) simp

lemma ballot_inv_step:
  assumes inv: "ballot_inv w" and step: "registries_step w w'"
    and u: "tokenUsed (voting w') = tokenUsed (voting w)"
    and cv: "campaignVotes (voting w') = campaignVotes (voting w)"
    and a: "v_nftContract (voting w') = v_nftContract (voting w)"
  shows "ballot_inv w'"
proof (cases "registries w (v_nftContract (voting w))")
  case None
  with inv have z: "\<forall>t. \<not> tokenUsed (voting w) t" "\<forall>c. campaignVotes (voting w) c = 0"
    by (simp_all add: ballot_inv_def)
  from step None have "registries w' (v_nftContract (voting w)) = None \<or>
      (\<exists>i. registries w' (v_nftContract (voting w)) = Some (freshNFT i))"
    by (rule registries_step_NoneD)
  then show ?thesis
  proof
    assume "registries w' (v_nftContract (voting w)) = None"
    with z show ?thesis by (simp add: ballot_inv_def a u cv)
  next
    assume "\<exists>i. registries w' (v_nftContract (voting w)) = Some (freshNFT i)"
    then obtain i where "registries w' (v_nftContract (voting w)) = Some (freshNFT i)" ..
    with z show ?thesis
      by (simp add: ballot_inv_def a u cv usedCertificates_none)
  qed
next
  case (Some n)
  with inv have r: "\<forall>t. tokenUsed (voting w) t \<longrightarrow> 1 \<le> t \<and> t < nextTokenId n"
    and c: "\<forall>c. campaignVotes (voting w) c = usedCertificates n (voting w) c"
    by (simp_all add: ballot_inv_def)
  from registries_step_SomeD [OF step Some]
  obtain n' where n': "registries w' (v_nftContract (voting w)) = Some n'"
    and ev: "evolves n n'"
    by blast
  from r have lt: "\<forall>t. tokenUsed (voting w) t \<longrightarrow> t < nextTokenId n" by blast
  have "usedCertificates n' (voting w') k = usedCertificates n (voting w) k" for k
    using usedCertificates_evolves [OF ev lt] usedCertificates_cong [OF u] by simp
  moreover have "\<forall>t. tokenUsed (voting w) t \<longrightarrow> 1 \<le> t \<and> t < nextTokenId n'"
    using r ev by (auto simp: evolves_def)
  ultimately show ?thesis using n' c by (simp add: ballot_inv_def a u cv)
qed

lemma vote_ballot_inv:
  assumes ex: "exec e (Vote k t) w = Inr w'" and inv: "ballot_inv w" and reg: "registries_inv w"
  shows "ballot_inv w'"
proof -
  from ex obtain v' where v: "vote e k t (registries w) (voting w) = Inr v'"
    and w': "w' = w\<lparr>voting := v'\<rparr>"
    by (auto dest!: onVoting_Inr)
  note v' = vote_Inr(5) [OF v]
  from vote_Inr(2) [OF v] obtain n where n: "registries w (v_nftContract (voting w)) = Some n"
    and o: "owners n t \<noteq> 0" and k: "dd_campaignId (donationDetails n t) = k" by blast
  from reg n have "registry_inv n" by (simp add: registries_inv_def)
  with o have t: "1 \<le> t" "t < nextTokenId n" unfolding registry_inv_def by blast+
  from inv n have r: "\<forall>x. tokenUsed (voting w) x \<longrightarrow> 1 \<le> x \<and> x < nextTokenId n"
    and c: "\<forall>c. campaignVotes (voting w) c = usedCertificates n (voting w) c"
    by (simp_all add: ballot_inv_def)
  have u: "tokenUsed v' = (tokenUsed (voting w))(t := True)" by (simp add: v')
  have "campaignVotes v' j = usedCertificates n v' j" for j
    using usedCertificates_vote [OF t vote_Inr(3) [OF v] u, of j] c k by (simp add: v')
  moreover have "\<forall>x. tokenUsed v' x \<longrightarrow> 1 \<le> x \<and> x < nextTokenId n"
    using r t by (simp add: v')
  moreover have "v_nftContract v' = v_nftContract (voting w)" by (simp add: v')
  ultimately show ?thesis using n by (simp add: ballot_inv_def w')
qed

lemma exec_ballot_inv:
  assumes ex: "exec e c w = Inr w'" and k: "keepsRegistry c"
    and inv: "ballot_inv w" and reg: "registries_inv w"
  shows "ballot_inv w'"
  using exec_voting [OF ex]
proof (elim disjE exE conjE)
  fix j t assume "c = Vote j t"
  with ex inv reg show ?thesis by (auto intro: vote_ballot_inv)
next
  fix a assume "c = VotingSetNFTContract a"
  with k show ?thesis by simp
next
  fix a assume "voting w' = (voting w)\<lparr>v_owner := a\<rparr>"
  then show ?thesis
    by (intro ballot_inv_step [OF inv exec_registries_step [OF ex reg]]) simp_all
next
  assume "voting w' = voting w"
  then show ?thesis
    by (intro ballot_inv_step [OF inv exec_registries_step [OF ex reg]]) simp_all
qed

lemma reachable_ballot_inv: "reachable_by keepsRegistry w \<Longrightarrow> ballot_inv w"
proof (induction rule: reachable_by.induct)
  case (init initialOwner m e nft v a)
  then show ?case
    by (auto simp: Voting_constructor_def freshVoting_def ballot_inv_def split: if_splits)
next
  case (step w c e w')
  then show ?case by (blast intro: exec_ballot_inv reachable_by_registries_inv)
qed

lemma exec_used_monotone:
  assumes "exec e c w = Inr w'" and "tokenUsed (voting w) t"
  shows "tokenUsed (voting w') t"
  using exec_voting [OF assms(1)] assms(2)
  by (auto dest!: vote_Inr(5))

lemma reachable_orphan: "reachable orphan"
  unfolding orphan_def by (rule reachable_run [OF reachable_world0])

lemma reachable_repointed: "reachable repointed"
  unfolding repointed_def by (rule reachable_run [OF reachable_world0])

lemma keepsRegistry_voted: "reachable_by keepsRegistry voted"
  unfolding voted_def
  by (rule reachable_by_run [OF reachable_by_world0]) (simp add: deployment_def)

lemma donated_registry:
  "v_nftContract (voting donated) = 200"
  "\<not> tokenUsed (voting donated) 1"
  "campaignVotes (voting donated) 1 = 0"
  "map_option (\<lambda>n. (ownerOf n 1, dd_campaignId (donationDetails n 1))) (registries donated 200)
     = Some (Inr 7, 1)"
  by (simp_all add: donated_def eval_defs)

lemma orphan_registry:
  "v_nftContract (voting orphan) = 200"
  "\<not> tokenUsed (voting orphan) 1"
  "campaignVotes (voting orphan) 42 = 0"
  "c_id (campaigns (manager orphan) 42) = 0"
  "map_option (\<lambda>n. (ownerOf n 1, dd_campaignId (donationDetails n 1))) (registries orphan 200)
     = Some (Inr 7, 42)"
  by (simp_all add: orphan_def eval_defs)

lemma voted_eval:
  "v_nftContract (voting voted) = 200"
  "getVotes (voting voted) 1 = 1"
  "hasVoted (voting voted) 1"
  "usedCertificatesAt voted 200 1 = 1"
  "v_owner (voting voted) = 1"
  by (simp_all add: voted_def eval_defs getVotes_def hasVoted_def usedCertificatesAt_def
      usedCertificates_def)

lemma repointed_eval:
  "v_nftContract (voting repointed) = 201"
  "getVotes (voting repointed) 1 = 1"
  "getVotes (voting repointed) 2 = 0"
  "getVotes (voting repointed) 3 = 1"
  "usedCertificatesAt repointed 201 1 = 0"
  "usedCertificatesAt repointed 201 2 = 1"
  "usedCertificatesAt repointed 200 3 = 0"
  by (simp_all add: repointed_def eval_defs getVotes_def usedCertificatesAt_def
      usedCertificates_def)

subsection \<open>Claim C2\<close>

text \<open>
  What holds between calls that are not nested. No successful call of any kind turns a
  used-flag from true to false. In a state reached by calls other than
  \<^verbatim>\<open>Voting.setNFTContract\<close>, each run to its end before the next begins and none made from
  inside a receiver's callback, \<^verbatim>\<open>getVotes c\<close> is the number of certificates of the
  registry the ballot registry points at whose used-flag is true and whose stored
  campaign id is \<open>c\<close>.
\<close>

lemma flags_kept_and_sequential_tally:
  "(\<forall>e c w' t. exec e c w = Inr w' \<longrightarrow> hasVoted (voting w) t \<longrightarrow> hasVoted (voting w') t) \<and>
   (reachable_by keepsRegistry w \<longrightarrow>
      (\<forall>c. getVotes (voting w) c = usedCertificatesAt w (v_nftContract (voting w)) c))"
proof -
  have "getVotes (voting w) c = usedCertificatesAt w (v_nftContract (voting w)) c"
    if "reachable_by keepsRegistry w" for c
    using reachable_ballot_inv [OF that]
    by (cases "registries w (v_nftContract (voting w))")
       (simp_all add: ballot_inv_def usedCertificatesAt_def getVotes_def)
  then show ?thesis by (auto simp: hasVoted_def intro: exec_used_monotone)
qed

text \<open>
  Re-pointing the ballot registry at another certificate registry keeps the flags and
  the tallies, which are keyed by token id alone, and so separates them from the
  certificates they came from.
\<close>

lemma repointing_separates_tally:
  "reachable repointed \<and> v_nftContract (voting repointed) = 201 \<and>
   getVotes (voting repointed) 2 = 0 \<and> usedCertificatesAt repointed 201 2 = 1 \<and>
   getVotes (voting repointed) 1 = 1 \<and> usedCertificatesAt repointed 201 1 = 0 \<and>
   getVotes (voting repointed) 3 = 1 \<and> usedCertificatesAt repointed 200 3 = 0"
  using reachable_repointed repointed_eval by simp

text \<open>The two halves of \<^verbatim>\<open>mintCertificate\<close>, and a receiver that makes no calls.\<close>

lemma mintCertificate_halves:
  "mintCertificate e donor amount c t h n =
     (case mintBegin e donor amount n of
        Inl err \<Rightarrow> Inl err
      | Inr (tokenId, tier, n3) \<Rightarrow>
          if \<not> acceptsToken e donor then Inl InvalidReceiver
          else Inr (tokenId, mintEnd e donor amount c t h tokenId tier n3))"
  by (auto simp add: mintCertificate_def mintBegin_def mintEnd_def safeMint_def Let_def
      split: sum.splits)

lemma donateWithCallback_no_calls:
  "donateWithCallback e [] c v w = donate e c v w"
  by (auto simp add: donateWithCallback_def donate_def mintCertificate_halves Let_def
      markMinted_def recordDonation_simps split: sum.splits option.splits)

lemma reentered_eval:
  "\<not> isl (donateWithCallback (env0 7 20) [(env0 7 20, Vote 0 1)] 1 (2 * 10 ^ 16)
             (run deployment world0))"
  "v_nftContract (voting reentered) = 200"
  "hasVoted (voting reentered) 1"
  "getVotes (voting reentered) 0 = 1"
  "getVotes (voting reentered) 1 = 0"
  "usedCertificatesAt reentered 200 0 = 0"
  "usedCertificatesAt reentered 200 1 = 1"
  "map_option (\<lambda>n. (ownerOf n 1, dd_campaignId (donationDetails n 1), nextTokenId n))
     (registries reentered 200) = Some (Inr 7, 1, 2)"
  by (simp_all add: reentered_def donateWithCallback_def mintBegin_def mintEnd_def eval_defs
      getVotes_def hasVoted_def usedCertificatesAt_def usedCertificates_def)

text \<open>
  C2 fails on the code. \<^verbatim>\<open>mintCertificate\<close> calls \<^verbatim>\<open>_safeMint\<close>, which runs the receiver's
  \<^verbatim>\<open>onERC721Received\<close>, before it writes \<^verbatim>\<open>donationDetails[tokenId]\<close>. In that callback the
  donor already owns the token, the flag is unset and the stored campaign id is still 0,
  so \<^verbatim>\<open>Voting.vote(0, tokenId)\<close> passes its three checks (the ballot registry's guard is its
  own, not the ledger's). After the deployment, the contract at address 7 donates 0.02
  ether to campaign 1 and votes so from its callback. The donation is accepted, and
  afterwards the ballot registry still points at the one registry, certificate 1 is used
  and is a certificate of campaign 1, yet \<^verbatim>\<open>getVotes(0)\<close> is 1 with no used certificate of
  campaign 0 and \<^verbatim>\<open>getVotes(1)\<close> is 0 with one used certificate of campaign 1. The vote was
  cast for a campaign the certificate does not come from, against the rule that
  \<^verbatim>\<open>vote\<close> states in its own comments.
\<close>

theorem vote_inside_mint_callback:
  "\<not> isl (donateWithCallback (env0 7 20) [(env0 7 20, Vote 0 1)] 1 (2 * 10 ^ 16)
             (run deployment world0)) \<and>
   v_nftContract (voting reentered) = 200 \<and>
   map_option (\<lambda>n. (ownerOf n 1, dd_campaignId (donationDetails n 1), nextTokenId n))
     (registries reentered 200) = Some (Inr 7, 1, 2) \<and>
   hasVoted (voting reentered) 1 \<and>
   getVotes (voting reentered) 0 = 1 \<and> usedCertificatesAt reentered 200 0 = 0 \<and>
   getVotes (voting reentered) 1 = 0 \<and> usedCertificatesAt reentered 200 1 = 1"
  using reentered_eval by simp

subsection \<open>Claim C7\<close>

text \<open>
  C7. In a reachable state where the caller owns certificate \<open>t\<close> of the registry the
  ballot registry points at, the certificate belongs to campaign \<open>c\<close>, it is unused and
  the tally of \<open>c\<close> is 0: the first \<^verbatim>\<open>vote(c, t)\<close> succeeds, sets the used-flag and makes
  the tally 1; a second \<^verbatim>\<open>vote(c, t)\<close> by the same caller fails with \<open>AlreadyUsed\<close> and
  leaves the whole state, the tally included, as it was after the first.
\<close>

theorem double_vote_rejected:
  assumes "reachable w"
    and "registries w (v_nftContract (voting w)) = Some n"
    and "ownerOf n t = Inr (sender e)" and "sender e' = sender e"
    and "\<not> hasVoted (voting w) t"
    and "dd_campaignId (donationDetails n t) = c"
    and "getVotes (voting w) c = 0"
  shows "\<exists>w1. exec e (Vote c t) w = Inr w1 \<and> hasVoted (voting w1) t \<and>
           getVotes (voting w1) c = 1 \<and>
           exec e' (Vote c t) w1 = Inl AlreadyUsed \<and>
           run [(e', Vote c t)] w1 = w1"
proof -
  let ?v1 = "(voting w)\<lparr>tokenUsed := (tokenUsed (voting w))(t := True),
                campaignVotes := (campaignVotes (voting w))(c := campaignVotes (voting w) c + 1),
                v_locked := False\<rparr>"
  let ?w1 = "w\<lparr>voting := ?v1\<rparr>"
  have l: "\<not> v_locked (voting w)"
    using reachable_tally_inv [OF assms(1)] by (simp add: tally_inv_def)
  have f: "fits (campaignVotes (voting w) c + 1)" by (rule reachable_vote_fits [OF assms(1)])
  have "vote e c t (registries w) (voting w) = Inr ?v1"
    using vote_succeeds [where regs = "registries w" and v = "voting w" and e = e and c = c
        and t = t and n = n] l assms(2,3,5,6) f
    by (simp add: hasVoted_def)
  then have 1: "exec e (Vote c t) w = Inr ?w1" by (simp add: onVoting_def)
  have 2: "exec e' (Vote c t) ?w1 = Inl AlreadyUsed"
    using assms(2,3,4) by (simp add: onVoting_def vote_def)
  have 3: "hasVoted (voting ?w1) t" "getVotes (voting ?w1) c = 1"
    using assms(7) by (simp_all add: hasVoted_def getVotes_def)
  from 1 2 3 show ?thesis by (intro exI [of _ ?w1]) simp
qed

theorem double_vote_rejected_witness:
  "\<exists>w1. exec (env0 7 30) (Vote 1 1) donated = Inr w1 \<and> hasVoted (voting w1) 1 \<and>
      getVotes (voting w1) 1 = 1 \<and>
      exec (env0 7 31) (Vote 1 1) w1 = Inl AlreadyUsed \<and>
      run [(env0 7 31, Vote 1 1)] w1 = w1"
proof -
  from donated_registry(4) obtain n where n: "registries donated 200 = Some n"
    and o: "ownerOf n 1 = Inr 7" and c: "dd_campaignId (donationDetails n 1) = 1"
    by auto
  have 1: "registries donated (v_nftContract (voting donated)) = Some n"
    using n donated_registry(1) by simp
  have 2: "ownerOf n 1 = Inr (sender (env0 7 30))" using o by (simp add: env0_def)
  have 3: "sender (env0 7 31) = sender (env0 7 30)" by (simp add: env0_def)
  have 4: "\<not> hasVoted (voting donated) 1" using donated_registry(2) by (simp add: hasVoted_def)
  have 5: "getVotes (voting donated) 1 = 0" using donated_registry(3) by (simp add: getVotes_def)
  from double_vote_rejected [OF reachable_donated 1 2 3 4 c 5] show ?thesis .
qed

subsection \<open>Claim C10\<close>

text \<open>
  C10. In every reachable state \<^verbatim>\<open>vote(c, t)\<close> succeeds iff the caller is the current
  owner of \<open>t\<close> in the registry the ballot registry points at, the used-flag of \<open>t\<close> is
  false and the certificate's stored campaign id is \<open>c\<close>; a successful vote increments
  the tally of \<open>c\<close>, sets the flag and leaves the ledger alone; and the outcome does not
  depend on the ledger: replacing the ledger's state by any other gives the same result.
  So a vote succeeds also for a campaign that is inactive, past its deadline or unknown
  to the ledger.
\<close>

theorem vote_succeeds_iff:
  assumes "reachable w"
  shows "((\<exists>w'. exec e (Vote c t) w = Inr w') \<longleftrightarrow>
            (\<exists>n. registries w (v_nftContract (voting w)) = Some n \<and>
                 ownerOf n t = Inr (sender e) \<and> \<not> hasVoted (voting w) t \<and>
                 dd_campaignId (donationDetails n t) = c)) \<and>
         (\<forall>w'. exec e (Vote c t) w = Inr w' \<longrightarrow>
            getVotes (voting w') c = getVotes (voting w) c + 1 \<and> hasVoted (voting w') t \<and>
            manager w' = manager w) \<and>
         (\<forall>m. exec e (Vote c t) (w\<lparr>manager := m\<rparr>) =
            (case exec e (Vote c t) w of Inl err \<Rightarrow> Inl err | Inr w' \<Rightarrow> Inr (w'\<lparr>manager := m\<rparr>)))"
proof -
  have l: "\<not> v_locked (voting w)"
    using reachable_tally_inv [OF assms] by (simp add: tally_inv_def)
  have f: "fits (campaignVotes (voting w) c + 1)" by (rule reachable_vote_fits [OF assms])
  have a: "(\<exists>w'. exec e (Vote c t) w = Inr w') \<longleftrightarrow>
            (\<exists>n. registries w (v_nftContract (voting w)) = Some n \<and>
                 ownerOf n t = Inr (sender e) \<and> \<not> hasVoted (voting w) t \<and>
                 dd_campaignId (donationDetails n t) = c)"
  proof
    assume "\<exists>w'. exec e (Vote c t) w = Inr w'"
    then obtain v' where v: "vote e c t (registries w) (voting w) = Inr v'"
      by (auto dest!: onVoting_Inr)
    from vote_Inr(2,3) [OF v] show "\<exists>n. registries w (v_nftContract (voting w)) = Some n \<and>
                 ownerOf n t = Inr (sender e) \<and> \<not> hasVoted (voting w) t \<and>
                 dd_campaignId (donationDetails n t) = c"
      by (auto simp: hasVoted_def)
  next
    assume "\<exists>n. registries w (v_nftContract (voting w)) = Some n \<and>
                 ownerOf n t = Inr (sender e) \<and> \<not> hasVoted (voting w) t \<and>
                 dd_campaignId (donationDetails n t) = c"
    then obtain n where n: "registries w (v_nftContract (voting w)) = Some n"
      "ownerOf n t = Inr (sender e)" "\<not> tokenUsed (voting w) t"
      "dd_campaignId (donationDetails n t) = c"
      by (auto simp: hasVoted_def)
    from vote_succeeds [where regs = "registries w" and v = "voting w" and e = e and c = c
        and t = t and n = n] l n f
    show "\<exists>w'. exec e (Vote c t) w = Inr w'"
      by (simp add: onVoting_def)
  qed
  have b: "getVotes (voting w') c = getVotes (voting w) c + 1 \<and> hasVoted (voting w') t \<and>
            manager w' = manager w" if ex: "exec e (Vote c t) w = Inr w'" for w'
  proof -
    from ex obtain v' where v: "vote e c t (registries w) (voting w) = Inr v'"
      and w': "w' = w\<lparr>voting := v'\<rparr>"
      by (auto dest!: onVoting_Inr)
    show ?thesis
      unfolding w' vote_Inr(5) [OF v] by (simp add: getVotes_def hasVoted_def)
  qed
  have c: "exec e (Vote c t) (w\<lparr>manager := m\<rparr>) =
            (case exec e (Vote c t) w of Inl err \<Rightarrow> Inl err | Inr w' \<Rightarrow> Inr (w'\<lparr>manager := m\<rparr>))"
    for m
    by (simp add: onVoting_def split: sum.splits)
  from a b c show ?thesis by blast
qed

theorem vote_succeeds_iff_witness:
  "reachable orphan \<and> c_id (campaigns (manager orphan) 42) = 0 \<and>
   (\<exists>w'. exec (env0 7 30) (Vote 42 1) orphan = Inr w' \<and> getVotes (voting w') 42 = 1 \<and>
      hasVoted (voting w') 1) \<and>
   (\<exists>err. exec (env0 8 30) (Vote 42 1) orphan = Inl err)"
proof -
  from orphan_registry(5) obtain n where n: "registries orphan 200 = Some n"
    and o: "ownerOf n 1 = Inr 7" and c: "dd_campaignId (donationDetails n 1) = 42"
    by auto
  note t = vote_succeeds_iff [OF reachable_orphan, of "env0 7 30" 42 1]
  have "\<exists>n. registries orphan (v_nftContract (voting orphan)) = Some n \<and>
            ownerOf n 1 = Inr (sender (env0 7 30)) \<and> \<not> hasVoted (voting orphan) 1 \<and>
            dd_campaignId (donationDetails n 1) = 42"
    using n o c orphan_registry(1,2) by (simp add: env0_def hasVoted_def)
  with t obtain w' where w': "exec (env0 7 30) (Vote 42 1) orphan = Inr w'" by blast
  with t have "getVotes (voting w') 42 = getVotes (voting orphan) 42 + 1" "hasVoted (voting w') 1"
    by blast+
  with orphan_registry(3) have g: "getVotes (voting w') 42 = 1" "hasVoted (voting w') 1"
    by (simp_all add: getVotes_def)
  have "\<not> (\<exists>n. registries orphan (v_nftContract (voting orphan)) = Some n \<and>
            ownerOf n 1 = Inr (sender (env0 8 30)) \<and> \<not> hasVoted (voting orphan) 1 \<and>
            dd_campaignId (donationDetails n 1) = 42)"
    using n o orphan_registry(1) by (simp add: env0_def)
  with vote_succeeds_iff [OF reachable_orphan, of "env0 8 30" 42 1]
  have "\<not> (\<exists>w'. exec (env0 8 30) (Vote 42 1) orphan = Inr w')" by blast
  then have "\<exists>err. exec (env0 8 30) (Vote 42 1) orphan = Inl err"
    by (cases "exec (env0 8 30) (Vote 42 1) orphan") auto
  with w' g reachable_orphan orphan_registry(4) show ?thesis by blast
qed

end
